theory Spec2Isabelle
  imports Main "HOL-Library.Multiset"
begin

section \<open>Object memory\<close>

text \<open>
  The heap of the source is a graph of mutable \<open>PairingNode\<close> objects that refer to each
  other. An object reference is an address; the object memory maps every address to the
  object's current fields. The absent values \<open>null\<close> and \<open>undefined\<close> of a link or an item
  are \<open>None\<close>. The field \<open>next\<close> of the source is called \<open>nxt\<close> here. A comparator
  (\<open>TLessThanFunc\<close>) is handed the \<open>item\<close> fields of two nodes as they are, present or not.
\<close>

type_synonym addr = nat

record 'a PairingNode =
  item :: "'a option"
  child :: "addr option"
  nxt :: "addr option"
  prev :: "addr option"

type_synonym 'a store = "addr \<Rightarrow> 'a PairingNode"

type_synonym 'a TLessThanFunc = "'a option \<Rightarrow> 'a option \<Rightarrow> bool"

definition set_item :: "addr \<Rightarrow> 'a option \<Rightarrow> 'a store \<Rightarrow> 'a store" where
  "set_item n v s = s(n := (s n)\<lparr>item := v\<rparr>)"

definition set_child :: "addr \<Rightarrow> addr option \<Rightarrow> 'a store \<Rightarrow> 'a store" where
  "set_child n v s = s(n := (s n)\<lparr>child := v\<rparr>)"

definition set_next :: "addr \<Rightarrow> addr option \<Rightarrow> 'a store \<Rightarrow> 'a store" where
  "set_next n v s = s(n := (s n)\<lparr>nxt := v\<rparr>)"

definition set_prev :: "addr \<Rightarrow> addr option \<Rightarrow> 'a store \<Rightarrow> 'a store" where
  "set_prev n v s = s(n := (s n)\<lparr>prev := v\<rparr>)"

datatype error = AlreadyDeleted | TypeError | RangeError

section \<open>The object pool\<close>

text \<open>
  Modelled from the spec: the \<open>IObjectPool\<close> collaborator. Only its interface is among the
  sources (\<open>size\<close>, \<open>maxSize\<close>, \<open>get\<close>, \<open>release\<close>); its implementation is not. The pool
  keeps released nodes for reuse: \<open>get\<close> hands one out or reports a miss, \<open>release\<close> accepts
  a node while the pool has room for it.
\<close>

record IObjectPool =
  pool_items :: "addr list"
  maxSize :: nat

definition pool_get :: "IObjectPool \<Rightarrow> addr option \<times> IObjectPool" where
  "pool_get p = (case pool_items p of
       [] \<Rightarrow> (None, p)
     | n # ns \<Rightarrow> (Some n, p\<lparr>pool_items := ns\<rparr>))"

definition pool_release :: "addr \<Rightarrow> IObjectPool \<Rightarrow> IObjectPool" where
  "pool_release n p =
     (if length (pool_items p) < maxSize p then p\<lparr>pool_items := n # pool_items p\<rparr> else p)"

section \<open>merge and collapse\<close>

text \<open>
  \<open>merge(a, b, lessThanFunc)\<close>: the three early returns, the choice of parent and child,
  and the six field assignments in the order of the source.
\<close>

definition merge ::
  "'a TLessThanFunc \<Rightarrow> addr option \<Rightarrow> addr option \<Rightarrow> 'a store \<Rightarrow> addr option \<times> 'a store" where
  "merge lessThanFunc a b s =
     (case a of
        None \<Rightarrow> (b, s)
      | Some a' \<Rightarrow>
         (case b of
            None \<Rightarrow> (a, s)
          | Some b' \<Rightarrow>
             if a' = b' then (a, s)
             else
               let (parent, chld) =
                     (if lessThanFunc (item (s b')) (item (s a')) then (b', a') else (a', b'));
                   s1 = set_next chld (child (s parent)) s;
                   s2 = (case child (s1 parent) of
                           None \<Rightarrow> s1
                         | Some pc \<Rightarrow> set_prev pc (Some chld) s1);
                   s3 = set_prev chld (Some parent) s2;
                   s4 = set_child parent (Some chld) s3;
                   s5 = set_next parent None s4;
                   s6 = set_prev parent None s5
               in (Some parent, s6)))"

text \<open>
  The first loop of \<open>collapse\<close>: \<open>next\<close> walks the sibling list two nodes at a time,
  \<open>tail\<close> is the head of the temporary list threaded through \<open>prev\<close>. The loop follows
  links of the memory, so it need not terminate on an arbitrary memory: not returning
  is the value \<open>None\<close>. The non-null assertion \<open>result!\<close> is the branch \<open>TypeError\<close>.
\<close>

partial_function (option) collapse_pass1 ::
  "'a TLessThanFunc \<Rightarrow> addr option \<Rightarrow> addr option \<Rightarrow> 'a store
     \<Rightarrow> (error + addr option \<times> 'a store) option" where
  "collapse_pass1 lessThanFunc next_node tail s =
     (case next_node of
        None \<Rightarrow> Some (Inr (tail, s))
      | Some a \<Rightarrow>
         (case nxt (s a) of
            Some b \<Rightarrow>
              (let next' = nxt (s b) in
               case merge lessThanFunc (Some a) (Some b) s of
                 (None, s1) \<Rightarrow> Some (Inl TypeError)
               | (Some result, s1) \<Rightarrow>
                   collapse_pass1 lessThanFunc next' (Some result) (set_prev result tail s1))
          | None \<Rightarrow> Some (Inr (Some a, set_prev a tail s))))"

text \<open>The second loop of \<open>collapse\<close>: back through the temporary list along \<open>prev\<close>.\<close>

partial_function (option) collapse_pass2 ::
  "'a TLessThanFunc \<Rightarrow> addr option \<Rightarrow> addr option \<Rightarrow> 'a store
     \<Rightarrow> (addr option \<times> 'a store) option" where
  "collapse_pass2 lessThanFunc result tail s =
     (case tail of
        None \<Rightarrow> Some (result, s)
      | Some t \<Rightarrow>
         (let next' = prev (s t) in
          case merge lessThanFunc result (Some t) s of
            (result', s1) \<Rightarrow> collapse_pass2 lessThanFunc result' next' s1))"

definition collapse ::
  "'a TLessThanFunc \<Rightarrow> addr option \<Rightarrow> 'a store \<Rightarrow> (error + addr option \<times> 'a store) option" where
  "collapse lessThanFunc node s =
     (case node of
        None \<Rightarrow> Some (Inr (None, s))
      | Some n \<Rightarrow>
         (case collapse_pass1 lessThanFunc (Some n) None s of
            None \<Rightarrow> None
          | Some (Inl e) \<Rightarrow> Some (Inl e)
          | Some (Inr (tail, s1)) \<Rightarrow>
             (case collapse_pass2 lessThanFunc None tail s1 of
                None \<Rightarrow> None
              | Some (result, s2) \<Rightarrow> Some (Inr (result, s2)))))"

section \<open>The heap controller\<close>

text \<open>
  The fields of a \<open>PairingHeap\<close> object (\<open>_objectPool\<close>, \<open>_size\<close>, \<open>_root\<close>), together with
  the object memory its nodes live in and the address the next freshly allocated node
  gets. The comparator \<open>_lessThanFunc\<close> is fixed at construction; it is the first
  argument of every operation.
\<close>

record 'a PairingHeap =
  mem :: "'a store"
  fresh :: addr
  h_objectPool :: "IObjectPool option"
  h_size :: int
  h_root :: "addr option"

definition clear :: "'a PairingHeap \<Rightarrow> 'a PairingHeap" where
  "clear h = h\<lparr>h_root := None, h_size := 0\<rparr>"

definition add :: "'a TLessThanFunc \<Rightarrow> 'a \<Rightarrow> 'a PairingHeap \<Rightarrow> addr \<times> 'a PairingHeap" where
  "add lessThanFunc x h =
     (let (got, pool') =
            (case h_objectPool h of
               None \<Rightarrow> (None, None)
             | Some p \<Rightarrow> (case pool_get p of (n, p') \<Rightarrow> (n, Some p')));
          (node, s1, fresh') =
            (case got of
               None \<Rightarrow>
                 (fresh h,
                  (mem h)(fresh h := \<lparr>item = Some x, child = None, nxt = None, prev = None\<rparr>),
                  Suc (fresh h))
             | Some n \<Rightarrow> (n, set_item n (Some x) (mem h), fresh h));
          size' = h_size h + 1;
          (r, s2) = merge lessThanFunc (h_root h) (Some node) s1
      in (node, h\<lparr>mem := s2, fresh := fresh', h_objectPool := pool', h_size := size', h_root := r\<rparr>))"

definition getMin :: "'a PairingHeap \<Rightarrow> 'a option" where
  "getMin h = (case h_root h of None \<Rightarrow> None | Some r \<Rightarrow> item (mem h r))"

definition getMinNode :: "'a PairingHeap \<Rightarrow> addr option" where
  "getMinNode h = h_root h"

definition isEmpty :: "'a PairingHeap \<Rightarrow> bool" where
  "isEmpty h = (h_root h = None)"

text \<open>
  The last statements of \<open>delete\<close>, reached from both of its branches: the node's links
  and item are cleared, the node is released to the pool when one is configured, and
  the size is decremented.
\<close>

definition delete_finish :: "addr \<Rightarrow> 'a PairingHeap \<Rightarrow> 'a PairingHeap" where
  "delete_finish node h =
     (let s1 = set_child node None (mem h);
          s2 = set_prev node None s1;
          s3 = set_next node None s2;
          s4 = set_item node None s3
      in h\<lparr>mem := s4,
           h_objectPool := map_option (pool_release node) (h_objectPool h),
           h_size := h_size h - 1\<rparr>)"

definition delete ::
  "'a TLessThanFunc \<Rightarrow> addr \<Rightarrow> 'a PairingHeap \<Rightarrow> (error + 'a PairingHeap) option" where
  "delete lessThanFunc node h =
     (let s = mem h in
      if Some node = h_root h then
        (case collapse lessThanFunc (child (s node)) s of
           None \<Rightarrow> None
         | Some (Inl e) \<Rightarrow> Some (Inl e)
         | Some (Inr (r, s1)) \<Rightarrow> Some (Inr (delete_finish node (h\<lparr>mem := s1, h_root := r\<rparr>))))
      else
        (case prev (s node) of
           None \<Rightarrow>
             if h_objectPool h \<noteq> None then Some (Inl AlreadyDeleted) else Some (Inr h)
         | Some p \<Rightarrow>
            (let s1 = (if child (s p) = Some node then set_child p (nxt (s node)) s
                       else set_next p (nxt (s node)) s);
                 s2 = (case nxt (s1 node) of
                         None \<Rightarrow> s1
                       | Some m \<Rightarrow> set_prev m (prev (s1 node)) s1)
             in case collapse lessThanFunc (child (s2 node)) s2 of
                  None \<Rightarrow> None
                | Some (Inl e) \<Rightarrow> Some (Inl e)
                | Some (Inr (c, s3)) \<Rightarrow>
                   (case merge lessThanFunc (h_root h) c s3 of
                      (r, s4) \<Rightarrow> Some (Inr (delete_finish node (h\<lparr>mem := s4, h_root := r\<rparr>)))))))"

definition deleteMin ::
  "'a TLessThanFunc \<Rightarrow> 'a PairingHeap \<Rightarrow> (error + 'a option \<times> 'a PairingHeap) option" where
  "deleteMin lessThanFunc h =
     (case h_root h of
        None \<Rightarrow> Some (Inr (None, h))
      | Some r \<Rightarrow>
         (let result = item (mem h r) in
          case delete lessThanFunc r h of
            None \<Rightarrow> None
          | Some (Inl e) \<Rightarrow> Some (Inl e)
          | Some (Inr h') \<Rightarrow> Some (Inr (result, h'))))"

text \<open>
  \<open>decreaseKey\<close> dereferences \<open>node.prev\<close> under a non-null assertion: on a node other than
  the root whose \<open>prev\<close> is absent the property access throws a \<open>TypeError\<close>.
\<close>

definition decreaseKey ::
  "'a TLessThanFunc \<Rightarrow> addr \<Rightarrow> 'a PairingHeap \<Rightarrow> error + 'a PairingHeap" where
  "decreaseKey lessThanFunc node h =
     (let s = mem h in
      if Some node = h_root h then Inr h
      else
        (case prev (s node) of
           None \<Rightarrow> Inl TypeError
         | Some p \<Rightarrow>
            (let s1 = (if child (s p) = Some node then set_child p (nxt (s node)) s
                       else set_next p (nxt (s node)) s);
                 s2 = (case nxt (s1 node) of
                         None \<Rightarrow> s1
                       | Some m \<Rightarrow> set_prev m (prev (s1 node)) s1)
             in case merge lessThanFunc (h_root h) (Some node) s2 of
                  (r, s3) \<Rightarrow> Inr (h\<lparr>mem := s3, h_root := r\<rparr>))))"

section \<open>Iteration\<close>

text \<open>
  The generator \<open>iterate\<close> of \<open>_iterate(nodes)\<close>, run until it ends or throws: \<open>out\<close>
  collects what it yields, a node (\<open>Inl\<close>) when \<open>nodes\<close> is set and the node's item (\<open>Inr\<close>)
  otherwise. The generator is recursive: \<open>yield* iterate(node.child)\<close> starts a generator
  of its own for the child, inside the one that runs, so the generator that yields the
  \<open>k\<close>-th item runs \<open>k\<close> calls deep. \<open>stack\<close> is the number of nested generators the call
  stack has room for: each generator takes one of them, and the call that finds none left
  throws a \<open>RangeError\<close>. The calls of \<open>collapse\<close>, \<open>merge\<close> and the comparator nest no
  deeper than three, whatever the heap, and are taken to fit.
\<close>

fun iterate ::
  "'a TLessThanFunc \<Rightarrow> bool \<Rightarrow> nat \<Rightarrow> addr option \<Rightarrow> (addr + 'a option) list \<Rightarrow> 'a store
     \<Rightarrow> (error + (addr + 'a option) list \<times> 'a store) option" where
  "iterate lessThanFunc nodes 0 node out s = Some (Inl RangeError)"
| "iterate lessThanFunc nodes (Suc stack) node out s =
     (case node of
        None \<Rightarrow> Some (Inr (out, s))
      | Some n \<Rightarrow>
         (let out' = out @ [if nodes then Inl n else Inr (item (s n))] in
          case child (s n) of
            None \<Rightarrow> Some (Inr (out', s))
          | Some c \<Rightarrow>
             if nxt (s c) \<noteq> None then
               (case collapse lessThanFunc (Some c) s of
                  None \<Rightarrow> None
                | Some (Inl e) \<Rightarrow> Some (Inl e)
                | Some (Inr (r, s1)) \<Rightarrow>
                   (let s2 = set_child n r s1 in
                    case child (s2 n) of
                      None \<Rightarrow> Some (Inl TypeError)
                    | Some c' \<Rightarrow>
                       (let s3 = set_prev c' (Some n) s2 in
                        iterate lessThanFunc nodes stack (child (s3 n)) out' s3)))
             else iterate lessThanFunc nodes stack (child (s n)) out' s))"

text \<open>
  The default iteration over the items of a heap on a call stack with room for \<open>stack\<close>
  nested generators, and the heap it leaves behind.
\<close>

definition items_of :: "(addr + 'a option) list \<Rightarrow> 'a option list" where
  "items_of ys = concat (map (\<lambda>y. case y of Inl n \<Rightarrow> [] | Inr x \<Rightarrow> [x]) ys)"

definition iterator ::
  "'a TLessThanFunc \<Rightarrow> nat \<Rightarrow> 'a PairingHeap \<Rightarrow> (error + 'a option list \<times> 'a PairingHeap) option" where
  "iterator lessThanFunc stack h =
     (case iterate lessThanFunc False stack (h_root h) [] (mem h) of
        None \<Rightarrow> None
      | Some (Inl e) \<Rightarrow> Some (Inl e)
      | Some (Inr (ys, s)) \<Rightarrow> Some (Inr (items_of ys, h\<lparr>mem := s\<rparr>)))"

text \<open>\<open>deleteMin\<close> called \<open>n\<close> times in a row, collecting what it returns.\<close>

fun deleteMin_times ::
  "'a TLessThanFunc \<Rightarrow> nat \<Rightarrow> 'a PairingHeap
     \<Rightarrow> (error + 'a option list \<times> 'a PairingHeap) option" where
  "deleteMin_times lessThanFunc 0 h = Some (Inr ([], h))"
| "deleteMin_times lessThanFunc (Suc n) h =
     (case deleteMin lessThanFunc h of
        None \<Rightarrow> None
      | Some (Inl e) \<Rightarrow> Some (Inl e)
      | Some (Inr (x, h')) \<Rightarrow>
         (case deleteMin_times lessThanFunc n h' of
            None \<Rightarrow> None
          | Some (Inl e) \<Rightarrow> Some (Inl e)
          | Some (Inr (xs, h'')) \<Rightarrow> Some (Inr (x # xs, h''))))"

text \<open>The items of a list added one after the other.\<close>

fun add_all :: "'a TLessThanFunc \<Rightarrow> 'a list \<Rightarrow> 'a PairingHeap \<Rightarrow> 'a PairingHeap" where
  "add_all lessThanFunc [] h = h"
| "add_all lessThanFunc (x # xs) h = add_all lessThanFunc xs (snd (add lessThanFunc x h))"

section \<open>Trees of nodes\<close>

text \<open>
  The sibling lists of the heap as values: \<open>PNode l a x r\<close> is the node at address \<open>a\<close> with
  the item \<open>x\<close>, \<open>l\<close> is the list of its children, \<open>r\<close> the rest of the sibling list it
  stands in. A pairing-heap tree with its root is a triple of the root's address, its item
  and the list of its children.
\<close>

datatype 'a ptree = Tip | PNode "'a ptree" addr 'a "'a ptree"

type_synonym 'a rooted = "addr \<times> 'a \<times> 'a ptree"

text \<open>
  The addresses and the items of a sibling list; \<open>dist\<close>: no address occurs twice.
\<close>

fun addrs :: "'a ptree \<Rightarrow> addr set" where
  "addrs Tip = {}"
| "addrs (PNode l a x r) = insert a (addrs l \<union> addrs r)"

fun items :: "'a ptree \<Rightarrow> 'a multiset" where
  "items Tip = {#}"
| "items (PNode l a x r) = add_mset x (items l + items r)"

fun dist :: "'a ptree \<Rightarrow> bool" where
  "dist Tip = True"
| "dist (PNode l a x r) =
     (a \<notin> addrs l \<and> a \<notin> addrs r \<and> addrs l \<inter> addrs r = {} \<and> dist l \<and> dist r)"

text \<open>
  \<open>repr s pv c t\<close>: in the memory \<open>s\<close> the reference \<open>c\<close> leads to the sibling list \<open>t\<close>,
  whose first node has \<open>pv\<close> as its \<open>prev\<close>: every node holds its item, its \<open>child\<close> leads
  to the list of its children, its \<open>next\<close> to the rest of the list, and the \<open>prev\<close> of a first
  child is the parent, that of a later sibling the sibling before it.
  \<open>tree_at s (a, x, l)\<close>: the node \<open>a\<close> holds \<open>x\<close> and its \<open>child\<close> leads to \<open>l\<close>; the
  node's own \<open>prev\<close> and \<open>next\<close> are left open.
\<close>

fun repr :: "'a store \<Rightarrow> addr option \<Rightarrow> addr option \<Rightarrow> 'a ptree \<Rightarrow> bool" where
  "repr s pv c Tip = (c = None)"
| "repr s pv c (PNode l a x r) =
     (c = Some a \<and> item (s a) = Some x \<and> prev (s a) = pv \<and>
      repr s (Some a) (child (s a)) l \<and> repr s (Some a) (nxt (s a)) r)"

fun tree_at :: "'a store \<Rightarrow> 'a rooted \<Rightarrow> bool" where
  "tree_at s (a, x, l) = (item (s a) = Some x \<and> repr s (Some a) (child (s a)) l)"

fun raddrs :: "'a rooted \<Rightarrow> addr set" where
  "raddrs (a, x, l) = insert a (addrs l)"

fun rdist :: "'a rooted \<Rightarrow> bool" where
  "rdist (a, x, l) = (a \<notin> addrs l \<and> dist l)"

text \<open>
  The comparator on items that are present, and \<open>Merge\<close> on trees: the second tree
  becomes the parent when its item compares strictly less than the first's.
\<close>

definition cmp_of :: "'a TLessThanFunc \<Rightarrow> 'a \<Rightarrow> 'a \<Rightarrow> bool" where
  "cmp_of lessThanFunc x y = lessThanFunc (Some x) (Some y)"

fun link :: "('a \<Rightarrow> 'a \<Rightarrow> bool) \<Rightarrow> 'a rooted \<Rightarrow> 'a rooted \<Rightarrow> 'a rooted" where
  "link cmp (a, x, la) (b, y, lb) =
     (if cmp y x then (b, y, PNode la a x lb) else (a, x, PNode lb b y la))"

subsection \<open>The two-pass method\<close>

text \<open>
  The recursive two-pass method on the list of the trees of a sibling list. The first
  pass merges each adjacent pair from left to right; an odd last tree passes through.
  The second pass reduces the results from the last back to the first: the accumulator,
  the reduction of the later results, is merged with the next one as
  \<open>Merge(accumulator, next)\<close>.
\<close>

fun sibs :: "'a ptree \<Rightarrow> 'a rooted list" where
  "sibs Tip = []"
| "sibs (PNode l a x r) = (a, x, l) # sibs r"

fun pass1_spec :: "('a \<Rightarrow> 'a \<Rightarrow> bool) \<Rightarrow> 'a rooted list \<Rightarrow> 'a rooted list" where
  "pass1_spec cmp (ta # tb # ts) = link cmp ta tb # pass1_spec cmp ts"
| "pass1_spec cmp [ta] = [ta]"
| "pass1_spec cmp [] = []"

fun pass2_spec :: "('a \<Rightarrow> 'a \<Rightarrow> bool) \<Rightarrow> 'a rooted list \<Rightarrow> 'a rooted option" where
  "pass2_spec cmp [] = None"
| "pass2_spec cmp (t # ts) =
     Some (case pass2_spec cmp ts of None \<Rightarrow> t | Some acc \<Rightarrow> link cmp acc t)"

definition collapse_spec :: "('a \<Rightarrow> 'a \<Rightarrow> bool) \<Rightarrow> 'a rooted list \<Rightarrow> 'a rooted option" where
  "collapse_spec cmp ts = pass2_spec cmp (pass1_spec cmp ts)"

text \<open>
  The first pass the way the loop runs it: along the sibling list, each result pushed in
  front of the temporary list.
\<close>

fun pass1_acc :: "('a \<Rightarrow> 'a \<Rightarrow> bool) \<Rightarrow> 'a ptree \<Rightarrow> 'a rooted list \<Rightarrow> 'a rooted list" where
  "pass1_acc cmp Tip acc = acc"
| "pass1_acc cmp (PNode l a x Tip) acc = (a, x, l) # acc"
| "pass1_acc cmp (PNode la a x (PNode lb b y r)) acc =
     pass1_acc cmp r (link cmp (a, x, la) (b, y, lb) # acc)"

text \<open>
  The temporary list in the memory: \<open>temps s tail ts\<close> holds when \<open>tail\<close> refers to the
  last tree pushed and \<open>prev\<close> leads from each tree to the one pushed before it.
  \<open>chain s c t\<close>: \<open>c\<close> leads to the sibling list \<open>t\<close>, whatever the \<open>prev\<close> of its first
  node is.
\<close>

fun laddrs :: "'a rooted list \<Rightarrow> addr set" where
  "laddrs [] = {}"
| "laddrs (t # ts) = raddrs t \<union> laddrs ts"

fun ldist :: "'a rooted list \<Rightarrow> bool" where
  "ldist [] = True"
| "ldist (t # ts) = (rdist t \<and> raddrs t \<inter> laddrs ts = {} \<and> ldist ts)"

fun temps :: "'a store \<Rightarrow> addr option \<Rightarrow> 'a rooted list \<Rightarrow> bool" where
  "temps s tail [] = (tail = None)"
| "temps s tail (t # ts) =
     (tail = Some (fst t) \<and> nxt (s (fst t)) = None \<and> tree_at s t \<and> temps s (prev (s (fst t))) ts)"

definition chain :: "'a store \<Rightarrow> addr option \<Rightarrow> 'a ptree \<Rightarrow> bool" where
  "chain s c t = repr s (case c of None \<Rightarrow> None | Some a \<Rightarrow> prev (s a)) c t"

text \<open>
  A node without \<open>prev\<close> and \<open>next\<close>.
\<close>

definition isolated :: "'a store \<Rightarrow> addr \<Rightarrow> bool" where
  "isolated s a = (prev (s a) = None \<and> nxt (s a) = None)"

text \<open>The tree a sibling list collapses to, on the list of its trees.\<close>

definition collapse_tree :: "('a \<Rightarrow> 'a \<Rightarrow> bool) \<Rightarrow> 'a ptree \<Rightarrow> 'a rooted option" where
  "collapse_tree cmp t = collapse_spec cmp (sibs t)"

subsection \<open>Taking a node out of its sibling list\<close>

text \<open>
  \<open>cut n t\<close> is \<open>t\<close> without the node \<open>n\<close> and its children: the siblings after \<open>n\<close> move up.
  \<open>sub_at n t\<close> is the tree of root \<open>n\<close> within \<open>t\<close>. \<open>unlink node p\<close> are the assignments by
  which \<open>delete\<close> and \<open>decreaseKey\<close> take a node out of its sibling list, \<open>p\<close> being what the
  node's \<open>prev\<close> refers to.
\<close>

fun cut :: "addr \<Rightarrow> 'a ptree \<Rightarrow> 'a ptree" where
  "cut n Tip = Tip"
| "cut n (PNode l a x r) = (if a = n then r else PNode (cut n l) a x (cut n r))"

fun sub_at :: "addr \<Rightarrow> 'a ptree \<Rightarrow> 'a rooted option" where
  "sub_at n Tip = None"
| "sub_at n (PNode l a x r) =
     (if a = n then Some (a, x, l)
      else (case sub_at n l of Some t \<Rightarrow> Some t | None \<Rightarrow> sub_at n r))"

definition unlink :: "addr \<Rightarrow> addr \<Rightarrow> 'a store \<Rightarrow> 'a store" where
  "unlink node p s =
     (let s1 = (if child (s p) = Some node then set_child p (nxt (s node)) s
                else set_next p (nxt (s node)) s)
      in case nxt (s1 node) of
           None \<Rightarrow> s1
         | Some m \<Rightarrow> set_prev m (prev (s1 node)) s1)"

subsection \<open>Heaps as trees\<close>

text \<open>
  The items and addresses of a tree, of an optional tree (the whole heap) and of a list
  of trees. \<open>tree_ok s root ro\<close>: the memory holds the tree \<open>ro\<close> at \<open>root\<close>, with pairwise
  different nodes and a root without \<open>prev\<close> and \<open>next\<close>; no tree means no root.
\<close>

fun ritems :: "'a rooted \<Rightarrow> 'a multiset" where
  "ritems (a, x, l) = add_mset x (items l)"

definition oaddrs :: "'a rooted option \<Rightarrow> addr set" where
  "oaddrs ro = (case ro of None \<Rightarrow> {} | Some r \<Rightarrow> raddrs r)"

definition oitems :: "'a rooted option \<Rightarrow> 'a multiset" where
  "oitems ro = (case ro of None \<Rightarrow> {#} | Some r \<Rightarrow> ritems r)"

fun litems :: "'a rooted list \<Rightarrow> 'a multiset" where
  "litems [] = {#}"
| "litems (t # ts) = ritems t + litems ts"

definition tree_ok :: "'a store \<Rightarrow> addr option \<Rightarrow> 'a rooted option \<Rightarrow> bool" where
  "tree_ok s root ro =
     (case ro of
        None \<Rightarrow> root = None
      | Some r \<Rightarrow> root = Some (fst r) \<and> tree_at s r \<and> isolated s (fst r) \<and> rdist r)"

text \<open>
  The tree after \<open>delete\<close> of a node below the root: the node is cut out, the list of its
  children collapses, and the result is merged under or over the root.
\<close>

fun del_inner :: "('a \<Rightarrow> 'a \<Rightarrow> bool) \<Rightarrow> addr \<Rightarrow> 'a rooted \<Rightarrow> 'a rooted" where
  "del_inner cmp n (a, x, l) =
     (case sub_at n l of
        None \<Rightarrow> (a, x, l)
      | Some (m, y, ln) \<Rightarrow>
         (case collapse_tree cmp ln of
            None \<Rightarrow> (a, x, cut n l)
          | Some c \<Rightarrow> link cmp (a, x, cut n l) c))"

text \<open>
  The nodes waiting in the pool: pairwise different, outside the tree, allocated, with
  absent links. \<open>heap_shape h ro\<close>: the heap \<open>h\<close> holds the tree \<open>ro\<close>, \<open>size\<close> counts its
  nodes, and every node of it was allocated.
\<close>

definition pool_ok :: "'a PairingHeap \<Rightarrow> addr set \<Rightarrow> bool" where
  "pool_ok h A =
     (case h_objectPool h of
        None \<Rightarrow> True
      | Some p \<Rightarrow> distinct (pool_items p) \<and>
          (\<forall>n\<in>set (pool_items p). n \<notin> A \<and> n < fresh h \<and> child (mem h n) = None \<and>
             nxt (mem h n) = None \<and> prev (mem h n) = None))"

definition heap_shape :: "'a PairingHeap \<Rightarrow> 'a rooted option \<Rightarrow> bool" where
  "heap_shape h ro =
     (tree_ok (mem h) (h_root h) ro \<and> h_size h = int (size (oitems ro)) \<and>
      (\<forall>a\<in>oaddrs ro. a < fresh h) \<and> pool_ok h (oaddrs ro))"

definition add_abs :: "('a \<Rightarrow> 'a \<Rightarrow> bool) \<Rightarrow> addr \<Rightarrow> 'a \<Rightarrow> 'a rooted option \<Rightarrow> 'a rooted" where
  "add_abs cmp n x ro = (case ro of None \<Rightarrow> (n, x, Tip) | Some r \<Rightarrow> link cmp r (n, x, Tip))"

text \<open>
  A node whose item and links are all absent; the tree after \<open>delete\<close> of a node.
\<close>

definition cleared :: "'a PairingNode \<Rightarrow> bool" where
  "cleared nd = (item nd = None \<and> child nd = None \<and> nxt nd = None \<and> prev nd = None)"

definition delete_abs :: "('a \<Rightarrow> 'a \<Rightarrow> bool) \<Rightarrow> addr \<Rightarrow> 'a rooted option \<Rightarrow> 'a rooted option" where
  "delete_abs cmp n ro =
     (case ro of
        None \<Rightarrow> None
      | Some (a, x, l) \<Rightarrow>
          if n = a then collapse_tree cmp l else Some (del_inner cmp n (a, x, l)))"

text \<open>The item of the node at an address of a tree.\<close>

definition label_of :: "addr \<Rightarrow> 'a rooted option \<Rightarrow> 'a option" where
  "label_of n ro =
     (case ro of
        None \<Rightarrow> None
      | Some (a, x, l) \<Rightarrow> map_option (\<lambda>u. fst (snd u)) (sub_at n (PNode l a x Tip)))"

text \<open>
  The tree after \<open>decreaseKey\<close> on a node below the root: the node is cut out with its
  children and merged with the root. \<open>relabel n v\<close> gives the node \<open>n\<close> the item \<open>v\<close>.
\<close>

fun dec_inner :: "('a \<Rightarrow> 'a \<Rightarrow> bool) \<Rightarrow> addr \<Rightarrow> 'a rooted \<Rightarrow> 'a rooted" where
  "dec_inner cmp n (a, x, l) =
     (case sub_at n l of
        None \<Rightarrow> (a, x, l)
      | Some u \<Rightarrow> link cmp (a, x, cut n l) u)"

definition decrease_abs :: "('a \<Rightarrow> 'a \<Rightarrow> bool) \<Rightarrow> addr \<Rightarrow> 'a rooted option \<Rightarrow> 'a rooted option" where
  "decrease_abs cmp n ro =
     (case ro of
        None \<Rightarrow> None
      | Some r \<Rightarrow> if n = fst r then Some r else Some (dec_inner cmp n r))"

fun relabel :: "addr \<Rightarrow> 'a \<Rightarrow> 'a ptree \<Rightarrow> 'a ptree" where
  "relabel n v Tip = Tip"
| "relabel n v (PNode l a x r) = PNode (relabel n v l) a (if a = n then v else x) (relabel n v r)"

fun rrelabel :: "addr \<Rightarrow> 'a \<Rightarrow> 'a rooted \<Rightarrow> 'a rooted" where
  "rrelabel n v (a, x, l) = (a, if a = n then v else x, relabel n v l)"

text \<open>
  What the heap asks of its comparator, on the items it holds: a strict weak ordering.
\<close>

definition swo :: "('a \<Rightarrow> 'a \<Rightarrow> bool) \<Rightarrow> bool" where
  "swo cmp =
     ((\<forall>x y. cmp x y \<longrightarrow> \<not> cmp y x) \<and>
      (\<forall>x y z. cmp x y \<longrightarrow> cmp y z \<longrightarrow> cmp x z) \<and>
      (\<forall>x y z. \<not> cmp x y \<longrightarrow> \<not> cmp y z \<longrightarrow> \<not> cmp x z))"

text \<open>
  Heap order on trees: no item among the children of a node, or below them, compares
  strictly less than the node's.
\<close>

fun pheap :: "('a \<Rightarrow> 'a \<Rightarrow> bool) \<Rightarrow> 'a ptree \<Rightarrow> bool" where
  "pheap cmp Tip = True"
| "pheap cmp (PNode l a x r) = (pheap cmp l \<and> pheap cmp r \<and> (\<forall>y\<in>#items l. \<not> cmp y x))"

fun rheap :: "('a \<Rightarrow> 'a \<Rightarrow> bool) \<Rightarrow> 'a rooted \<Rightarrow> bool" where
  "rheap cmp (a, x, l) = (pheap cmp l \<and> (\<forall>y\<in>#items l. \<not> cmp y x))"

definition oheap :: "('a \<Rightarrow> 'a \<Rightarrow> bool) \<Rightarrow> 'a rooted option \<Rightarrow> bool" where
  "oheap cmp ro = (case ro of None \<Rightarrow> True | Some r \<Rightarrow> rheap cmp r)"

text \<open>
  The nodes reachable from a reference along \<open>child\<close> and \<open>next\<close> links. The nodes of the
  heap are those reachable from the root; the descendants of a node are those reachable
  from its first child.
\<close>

inductive_set reach :: "'a store \<Rightarrow> addr option \<Rightarrow> addr set"
  for s :: "'a store" and c :: "addr option" where
  start: "c = Some a \<Longrightarrow> a \<in> reach s c"
| down: "a \<in> reach s c \<Longrightarrow> child (s a) = Some b \<Longrightarrow> b \<in> reach s c"
| along: "a \<in> reach s c \<Longrightarrow> nxt (s a) = Some b \<Longrightarrow> b \<in> reach s c"

text \<open>
  The invariants of the heap as the memory shows them: no descendant of a node of the
  heap compares strictly less than it; the root is a minimum; \<open>size\<close> is the number of
  nodes reachable from the root; the root has neither \<open>prev\<close> nor \<open>next\<close>.
\<close>

definition heap_ordered :: "'a TLessThanFunc \<Rightarrow> 'a PairingHeap \<Rightarrow> bool" where
  "heap_ordered lessThanFunc h =
     (\<forall>n\<in>reach (mem h) (h_root h). \<forall>d\<in>reach (mem h) (child (mem h n)).
        \<not> lessThanFunc (item (mem h d)) (item (mem h n)))"

definition root_is_min :: "'a TLessThanFunc \<Rightarrow> 'a PairingHeap \<Rightarrow> bool" where
  "root_is_min lessThanFunc h =
     (\<forall>r. h_root h = Some r \<longrightarrow>
        (\<forall>d\<in>reach (mem h) (h_root h). \<not> lessThanFunc (item (mem h d)) (item (mem h r))))"

definition size_accurate :: "'a PairingHeap \<Rightarrow> bool" where
  "size_accurate h = (h_size h = int (card (reach (mem h) (h_root h))))"

definition root_detached :: "'a PairingHeap \<Rightarrow> bool" where
  "root_detached h =
     (\<forall>r. h_root h = Some r \<longrightarrow> prev (mem h r) = None \<and> nxt (mem h r) = None)"

text \<open>
  The representation invariant of a heap: its memory holds a tree of pairwise different
  nodes under the root, in heap order, \<open>size\<close> counts its nodes, every node was allocated
  (lies below \<open>fresh\<close>), and the nodes waiting in the pool are outside the tree with their
  links cleared.
\<close>

definition heap_inv :: "'a TLessThanFunc \<Rightarrow> 'a PairingHeap \<Rightarrow> bool" where
  "heap_inv lessThanFunc h = (\<exists>ro. heap_shape h ro \<and> oheap (cmp_of lessThanFunc) ro)"

text \<open>
  What repeated extraction of the minimum yields from a tree, node by node, and the tree
  the iteration leaves behind: every node over the collapsed list of its children.
\<close>

fun drain_fuel :: "nat \<Rightarrow> ('a \<Rightarrow> 'a \<Rightarrow> bool) \<Rightarrow> 'a rooted \<Rightarrow> (addr \<times> 'a) list" where
  "drain_fuel 0 cmp r = []"
| "drain_fuel (Suc k) cmp (a, x, l) =
     (a, x) # (case collapse_tree cmp l of None \<Rightarrow> [] | Some r \<Rightarrow> drain_fuel k cmp r)"

definition drain :: "('a \<Rightarrow> 'a \<Rightarrow> bool) \<Rightarrow> 'a rooted option \<Rightarrow> (addr \<times> 'a) list" where
  "drain cmp ro = (case ro of None \<Rightarrow> [] | Some r \<Rightarrow> drain_fuel (size (ritems r)) cmp r)"

fun path_fuel :: "nat \<Rightarrow> ('a \<Rightarrow> 'a \<Rightarrow> bool) \<Rightarrow> 'a rooted \<Rightarrow> 'a rooted" where
  "path_fuel 0 cmp r = r"
| "path_fuel (Suc k) cmp (a, x, l) =
     (a, x, case collapse_tree cmp l of
              None \<Rightarrow> Tip
            | Some r \<Rightarrow> (case path_fuel k cmp r of (b, y, lb) \<Rightarrow> PNode lb b y Tip))"

text \<open>
  What the generator yields for a node: the node itself or its item.
\<close>

definition yield_of :: "bool \<Rightarrow> addr \<times> 'a \<Rightarrow> addr + 'a option" where
  "yield_of nodes p = (if nodes then Inl (fst p) else Inr (Some (snd p)))"

subsection \<open>Concrete heaps\<close>

text \<open>\<open>lessThanDefault\<close> on numbers: \<open>o1 < o2\<close>, which is false when an operand is \<open>undefined\<close>.\<close>

definition lessThanDefault :: "int TLessThanFunc" where
  "lessThanDefault o1 o2 = (case (o1, o2) of (Some x, Some y) \<Rightarrow> x < y | _ \<Rightarrow> False)"

definition blank :: "int PairingNode" where
  "blank = \<lparr>item = None, child = None, nxt = None, prev = None\<rparr>"

text \<open>A memory with the root 0 (item 5) and the tree of root 1 (item 3) over its child 2 (item 9).\<close>

definition mem_two_trees :: "int store" where
  "mem_two_trees = (\<lambda>_. blank)
     (0 := \<lparr>item = Some 5, child = None, nxt = None, prev = None\<rparr>,
      1 := \<lparr>item = Some 3, child = Some 2, nxt = None, prev = None\<rparr>,
      2 := \<lparr>item = Some 9, child = None, nxt = None, prev = Some 1\<rparr>)"

text \<open>A memory with the sibling list 1, 2, 3 (items 7, 4, 6) under the node 0 (item 1).\<close>

definition mem_siblings :: "int store" where
  "mem_siblings = (\<lambda>_. blank)
     (0 := \<lparr>item = Some 1, child = Some 1, nxt = None, prev = None\<rparr>,
      1 := \<lparr>item = Some 7, child = None, nxt = Some 2, prev = Some 0\<rparr>,
      2 := \<lparr>item = Some 4, child = None, nxt = Some 3, prev = Some 1\<rparr>,
      3 := \<lparr>item = Some 6, child = None, nxt = None, prev = Some 2\<rparr>)"

text \<open>
  Well-formedness alone (the invariant without the heap order), and what the claims call
  the heap invariants, read off the memory.
\<close>

definition heap_wf :: "'a PairingHeap \<Rightarrow> bool" where
  "heap_wf h = (\<exists>ro. heap_shape h ro)"

definition heap_invariants :: "'a TLessThanFunc \<Rightarrow> 'a PairingHeap \<Rightarrow> bool" where
  "heap_invariants lessThanFunc h =
     (heap_ordered lessThanFunc h \<and> root_is_min lessThanFunc h \<and> size_accurate h)"

text \<open>
  Every node that was allocated (lies below \<open>fresh\<close>) and is not in the heap has its links
  and its item cleared.
\<close>

definition dead_cleared :: "'a PairingHeap \<Rightarrow> bool" where
  "dead_cleared h =
     (\<forall>a. a < fresh h \<and> a \<notin> reach (mem h) (h_root h) \<longrightarrow> cleared (mem h a))"

text \<open>The heap after \<open>add\<close> of 5, 3, 8, 1 with the default comparator and no pool; node 4 was
  allocated and deleted.\<close>

definition mem_ex :: "int store" where
  "mem_ex = (\<lambda>_. blank)
     (0 := \<lparr>item = Some 5, child = None, nxt = None, prev = Some 2\<rparr>,
      1 := \<lparr>item = Some 3, child = Some 2, nxt = None, prev = Some 3\<rparr>,
      2 := \<lparr>item = Some 8, child = None, nxt = Some 0, prev = Some 1\<rparr>,
      3 := \<lparr>item = Some 1, child = Some 1, nxt = None, prev = None\<rparr>)"

definition heap_ex :: "int PairingHeap" where
  "heap_ex = \<lparr>mem = mem_ex, fresh = 5, h_objectPool = None, h_size = 4, h_root = Some 3\<rparr>"

definition tree_ex :: "int rooted" where
  "tree_ex = (3, 1, PNode (PNode Tip 2 8 (PNode Tip 0 5 Tip)) 1 3 Tip)"

text \<open>The same heap with a pool of capacity 2 that holds the deleted node 4.\<close>

definition heap_pool_ex :: "int PairingHeap" where
  "heap_pool_ex = heap_ex\<lparr>h_objectPool := Some \<lparr>pool_items = [4], maxSize = 2\<rparr>\<rparr>"

text \<open>An empty heap whose pool hands out node 1, the \<open>child\<close> link of which is set.\<close>

definition heap_dirty_pool :: "int PairingHeap" where
  "heap_dirty_pool =
     \<lparr>mem = (\<lambda>_. blank)(1 := \<lparr>item = None, child = Some 0, nxt = None, prev = None\<rparr>),
      fresh = 2, h_objectPool = Some \<lparr>pool_items = [1], maxSize = 1\<rparr>, h_size = 0,
      h_root = None\<rparr>"

text \<open>A new heap: no node allocated, nothing in it.\<close>

definition heap_new :: "IObjectPool option \<Rightarrow> int PairingHeap" where
  "heap_new pool =
     \<lparr>mem = (\<lambda>_. blank), fresh = 0, h_objectPool = map_option (\<lambda>p. p\<lparr>pool_items := []\<rparr>) pool,
      h_size = 0, h_root = None\<rparr>"

section \<open>What merge does to trees\<close>

lemma repr_frame:
  "repr s pv c t \<Longrightarrow> \<forall>a\<in>addrs t. s' a = s a \<Longrightarrow> repr s' pv c t"
  by (induction t arbitrary: pv c) auto

lemma repr_upd_other [simp]:
  "a \<notin> addrs t \<Longrightarrow> repr (s(a := n)) pv c t = repr s pv c t"
  by (induction t arbitrary: pv c) auto

lemma repr_root_in: "repr s pv (Some a) t \<Longrightarrow> a \<in> addrs t"
  by (cases t) auto

lemma repr_None [simp]: "repr s pv None t = (t = Tip)"
  by (cases t) auto

lemma raddrs_link [simp]: "raddrs (link cmp ta tb) = raddrs ta \<union> raddrs tb"
  by (cases ta; cases tb) auto

lemma rdist_link:
  "rdist ta \<Longrightarrow> rdist tb \<Longrightarrow> raddrs ta \<inter> raddrs tb = {} \<Longrightarrow> rdist (link cmp ta tb)"
  by (cases ta; cases tb) auto

lemma merge_link:
  assumes "tree_at s ta" "tree_at s tb" "rdist ta" "rdist tb" "raddrs ta \<inter> raddrs tb = {}"
  shows "\<exists>s'. merge lessThanFunc (Some (fst ta)) (Some (fst tb)) s
            = (Some (fst (link (cmp_of lessThanFunc) ta tb)), s') \<and>
          tree_at s' (link (cmp_of lessThanFunc) ta tb) \<and>
          prev (s' (fst (link (cmp_of lessThanFunc) ta tb))) = None \<and>
          nxt (s' (fst (link (cmp_of lessThanFunc) ta tb))) = None \<and>
          (\<forall>m. m \<notin> raddrs ta \<union> raddrs tb \<longrightarrow> s' m = s m)"
proof -
  obtain a x la where ta: "ta = (a, x, la)" by (cases ta)
  obtain b y lb where tb: "tb = (b, y, lb)" by (cases tb)
  show ?thesis
  proof (cases "cmp_of lessThanFunc y x")
    case True
    then show ?thesis using assms unfolding ta tb
      by (cases lb) (auto simp: merge_def cmp_of_def Let_def set_prev_def set_next_def set_child_def)
  next
    case False
    then show ?thesis using assms unfolding ta tb
      by (cases la) (auto simp: merge_def cmp_of_def Let_def set_prev_def set_next_def set_child_def)
  qed
qed

declare link.simps [simp del]

section \<open>What collapse computes\<close>

lemma pass1_acc_spec: "pass1_acc cmp t acc = rev (pass1_spec cmp (sibs t)) @ acc"
  by (induction cmp t acc rule: pass1_acc.induct) auto

lemma pass2_spec_append1:
  "pass2_spec cmp (xs @ [v]) = Some (foldr (\<lambda>t acc. link cmp acc t) xs v)"
  by (induction xs) auto

lemma pass2_spec_rev:
  "pass2_spec cmp (rev (t # ts)) = Some (foldl (link cmp) t ts)"
  by (simp add: pass2_spec_append1 foldr_conv_foldl)

lemma repr_chain: "repr s pv c t \<Longrightarrow> chain s c t"
  by (cases t) (auto simp: chain_def)

lemma tree_at_frame: "tree_at s t \<Longrightarrow> \<forall>a\<in>raddrs t. s' a = s a \<Longrightarrow> tree_at s' t"
  by (cases t) (auto intro: repr_frame)

lemma temps_frame: "temps s tail ts \<Longrightarrow> \<forall>a\<in>laddrs ts. s' a = s a \<Longrightarrow> temps s' tail ts"
  by (induction ts arbitrary: tail) (auto intro: tree_at_frame simp: )

lemma tree_at_set_prev: "tree_at s t \<Longrightarrow> rdist t \<Longrightarrow> tree_at (set_prev (fst t) v s) t"
  by (cases t) (auto simp: set_prev_def)

lemma laddrs_pass1_acc: "laddrs (pass1_acc cmp t acc) = addrs t \<union> laddrs acc"
  by (induction cmp t acc rule: pass1_acc.induct) auto

lemma ldist_pass1_acc:
  "dist t \<Longrightarrow> ldist acc \<Longrightarrow> addrs t \<inter> laddrs acc = {} \<Longrightarrow> ldist (pass1_acc cmp t acc)"
proof (induction cmp t acc rule: pass1_acc.induct)
  case (3 cmp la a x lb b y r acc)
  have "ldist (link cmp (a, x, la) (b, y, lb) # acc)"
    using 3(2-) rdist_link[of "(a, x, la)" "(b, y, lb)" cmp] by auto
  moreover have "addrs r \<inter> laddrs (link cmp (a, x, la) (b, y, lb) # acc) = {}"
    using 3(2-) by auto
  ultimately show ?case using 3 by simp
qed auto

lemma pass1_ok:
  assumes "chain s c t" "dist t" "temps s tail acc" "addrs t \<inter> laddrs acc = {}"
  shows "\<exists>tail' s'. collapse_pass1 lessThanFunc c tail s = Some (Inr (tail', s')) \<and>
           temps s' tail' (pass1_acc (cmp_of lessThanFunc) t acc) \<and>
           (\<forall>m. m \<notin> addrs t \<longrightarrow> s' m = s m)"
  using assms
proof (induction "cmp_of lessThanFunc" t acc arbitrary: s c tail rule: pass1_acc.induct)
  case (1 acc)
  then show ?case
    by (subst collapse_pass1.simps) (simp add: chain_def)
next
  case (2 l a x acc)
  have "temps (set_prev a tail s) tail acc"
    using 2 by (auto intro!: temps_frame[of s] simp: set_prev_def)
  then show ?case using 2
    by (subst collapse_pass1.simps) (auto simp: chain_def set_prev_def)
next
  case (3 la a x lb b y r acc)
  let ?ta = "(a, x, la)" and ?tb = "(b, y, lb)"
  let ?p = "link (cmp_of lessThanFunc) ?ta ?tb"
  from 3(2) have c: "c = Some a" and nb: "nxt (s a) = Some b"
    and ta: "tree_at s ?ta" and tb: "tree_at s ?tb"
    and rr: "repr s (Some b) (nxt (s b)) r"
    by (auto simp: chain_def)
  from 3(3) have d: "rdist ?ta" "rdist ?tb" "raddrs ?ta \<inter> raddrs ?tb = {}" by auto
  from merge_link[OF ta tb d, of lessThanFunc] obtain s1 where
    m: "merge lessThanFunc (Some a) (Some b) s = (Some (fst ?p), s1)"
    and tp: "tree_at s1 ?p" and np: "nxt (s1 (fst ?p)) = None"
    and fr: "\<forall>m. m \<notin> raddrs ?ta \<union> raddrs ?tb \<longrightarrow> s1 m = s m"
    by auto
  let ?s2 = "set_prev (fst ?p) tail s1"
  have dp: "rdist ?p" using d by (rule rdist_link)
  have fr2: "\<forall>m. m \<notin> raddrs ?ta \<union> raddrs ?tb \<longrightarrow> ?s2 m = s m"
    using fr raddrs_link[of "cmp_of lessThanFunc" ?ta ?tb]
    by (cases ?p) (auto simp: set_prev_def)
  have t2: "temps ?s2 (Some (fst ?p)) (?p # acc)"
  proof -
    have "temps ?s2 tail acc"
      by (rule temps_frame[OF 3(4)]) (use 3(5) fr2 in auto)
    moreover have "tree_at ?s2 ?p" using tp dp by (rule tree_at_set_prev)
    ultimately show ?thesis using np by (simp add: set_prev_def)
  qed
  have "repr ?s2 (Some b) (nxt (s b)) r"
    by (rule repr_frame[OF rr]) (use 3(3) fr2 in auto)
  then have ch: "chain ?s2 (nxt (s b)) r"
    by (rule repr_chain)
  have dj: "addrs r \<inter> laddrs (?p # acc) = {}"
    using 3(3,5) by auto
  from 3(1)[OF ch _ t2 dj] 3(3) obtain tail' s' where
    r: "collapse_pass1 lessThanFunc (nxt (s b)) (Some (fst ?p)) ?s2 = Some (Inr (tail', s'))"
       "temps s' tail' (pass1_acc (cmp_of lessThanFunc) r (?p # acc))"
       "\<forall>m. m \<notin> addrs r \<longrightarrow> s' m = ?s2 m"
    by auto
  have "collapse_pass1 lessThanFunc c tail s = Some (Inr (tail', s'))"
    by (subst collapse_pass1.simps) (simp add: c nb m r(1))
  moreover have "\<forall>m. m \<notin> addrs (PNode la a x (PNode lb b y r)) \<longrightarrow> s' m = s m"
    using r(3) fr2 by auto
  ultimately show ?case using r(2) by auto
qed

lemma laddrs_foldl_link [simp]:
  "raddrs (foldl (link cmp) r ts) = raddrs r \<union> laddrs ts"
  by (induction ts arbitrary: r) auto

lemma rdist_foldl_link:
  "rdist r \<Longrightarrow> ldist ts \<Longrightarrow> raddrs r \<inter> laddrs ts = {} \<Longrightarrow> rdist (foldl (link cmp) r ts)"
proof (induction ts arbitrary: r)
  case (Cons t ts)
  have "rdist (link cmp r t)" using Cons.prems by (intro rdist_link) auto
  moreover have "raddrs (link cmp r t) \<inter> laddrs ts = {}" using Cons.prems by auto
  ultimately show ?case using Cons by simp
qed simp

lemma pass2_ok:
  assumes "temps s tail ts" "ldist ts" "tree_at s r" "rdist r" "raddrs r \<inter> laddrs ts = {}"
    "ts = [] \<longrightarrow> isolated s (fst r)"
  shows "\<exists>s'. collapse_pass2 lessThanFunc (Some (fst r)) tail s
             = Some (Some (fst (foldl (link (cmp_of lessThanFunc)) r ts)), s') \<and>
          tree_at s' (foldl (link (cmp_of lessThanFunc)) r ts) \<and>
          isolated s' (fst (foldl (link (cmp_of lessThanFunc)) r ts)) \<and>
          (\<forall>m. m \<notin> raddrs r \<union> laddrs ts \<longrightarrow> s' m = s m)"
  using assms
proof (induction ts arbitrary: s tail r)
  case Nil
  then show ?case by (subst collapse_pass2.simps) simp
next
  case (Cons t ts)
  let ?p = "link (cmp_of lessThanFunc) r t"
  from Cons.prems have tl: "tail = Some (fst t)" and tt: "tree_at s t"
    and rest: "temps s (prev (s (fst t))) ts" by auto
  from Cons.prems have d: "rdist r" "rdist t" "raddrs r \<inter> raddrs t = {}" by auto
  from merge_link[OF Cons.prems(3) tt d, of lessThanFunc] obtain s1 where
    m: "merge lessThanFunc (Some (fst r)) (Some (fst t)) s = (Some (fst ?p), s1)"
    and tp: "tree_at s1 ?p" and ip: "isolated s1 (fst ?p)"
    and fr: "\<forall>m. m \<notin> raddrs r \<union> raddrs t \<longrightarrow> s1 m = s m"
    by (auto simp: isolated_def)
  have rest1: "temps s1 (prev (s (fst t))) ts"
    by (rule temps_frame[OF rest]) (use Cons.prems fr in auto)
  have dp: "rdist ?p" using d by (rule rdist_link)
  have dj: "raddrs ?p \<inter> laddrs ts = {}" using Cons.prems by auto
  have dl: "ldist ts" using Cons.prems by simp
  from Cons.IH[OF rest1 dl tp dp dj] ip obtain s' where
    r: "collapse_pass2 lessThanFunc (Some (fst ?p)) (prev (s (fst t))) s1
          = Some (Some (fst (foldl (link (cmp_of lessThanFunc)) ?p ts)), s')"
       "tree_at s' (foldl (link (cmp_of lessThanFunc)) ?p ts)"
       "isolated s' (fst (foldl (link (cmp_of lessThanFunc)) ?p ts))"
       "\<forall>m. m \<notin> raddrs ?p \<union> laddrs ts \<longrightarrow> s' m = s1 m"
    by auto
  have "collapse_pass2 lessThanFunc (Some (fst r)) tail s
          = Some (Some (fst (foldl (link (cmp_of lessThanFunc)) r (t # ts))), s')"
    by (subst collapse_pass2.simps) (simp add: tl m r(1))
  moreover have "\<forall>m. m \<notin> raddrs r \<union> laddrs (t # ts) \<longrightarrow> s' m = s m"
    using r(4) fr by auto
  ultimately show ?case using r(2,3) by auto
qed

lemma pass2_start:
  assumes "temps s tail (t # ts)" "ldist (t # ts)"
  shows "\<exists>s'. collapse_pass2 lessThanFunc None tail s
             = Some (Some (fst (foldl (link (cmp_of lessThanFunc)) t ts)), s') \<and>
          tree_at s' (foldl (link (cmp_of lessThanFunc)) t ts) \<and>
          isolated s' (fst (foldl (link (cmp_of lessThanFunc)) t ts)) \<and>
          (\<forall>m. m \<notin> laddrs (t # ts) \<longrightarrow> s' m = s m)"
proof -
  from assms have tl: "tail = Some (fst t)" and tt: "tree_at s t"
    and nx: "nxt (s (fst t)) = None"
    and rest: "temps s (prev (s (fst t))) ts" by auto
  have iso: "ts = [] \<longrightarrow> isolated s (fst t)"
    using rest nx by (auto simp: isolated_def)
  from assms have d: "ldist ts" "rdist t" "raddrs t \<inter> laddrs ts = {}" by auto
  from pass2_ok[OF rest d(1) tt d(2,3) iso, of lessThanFunc] obtain s' where
    r: "collapse_pass2 lessThanFunc (Some (fst t)) (prev (s (fst t))) s
          = Some (Some (fst (foldl (link (cmp_of lessThanFunc)) t ts)), s')"
       "tree_at s' (foldl (link (cmp_of lessThanFunc)) t ts)"
       "isolated s' (fst (foldl (link (cmp_of lessThanFunc)) t ts))"
       "\<forall>m. m \<notin> raddrs t \<union> laddrs ts \<longrightarrow> s' m = s m"
    by auto
  have "collapse_pass2 lessThanFunc None tail s
          = Some (Some (fst (foldl (link (cmp_of lessThanFunc)) t ts)), s')"
    by (subst collapse_pass2.simps) (simp add: tl merge_def r(1))
  then show ?thesis using r(2,3,4) by auto
qed

lemma pass1_acc_nonempty': "t \<noteq> Tip \<or> acc \<noteq> [] \<Longrightarrow> pass1_acc cmp t acc \<noteq> []"
  by (induction cmp t acc rule: pass1_acc.induct) auto

lemma pass1_acc_nonempty: "t \<noteq> Tip \<Longrightarrow> pass1_acc cmp t acc \<noteq> []"
  by (simp add: pass1_acc_nonempty')

lemma collapse_tree_Tip [simp]: "collapse_tree cmp Tip = None"
  by (simp add: collapse_tree_def collapse_spec_def)

lemma collapse_tree_eq:
  "pass1_acc cmp t [] = u # us \<Longrightarrow> collapse_tree cmp t = Some (foldl (link cmp) u us)"
  using pass1_acc_spec[of cmp t "[]"] pass2_spec_rev[of cmp u us]
  by (simp add: collapse_tree_def collapse_spec_def)

lemma collapse_ok:
  assumes "chain s c t" "dist t"
  shows "\<exists>s'. collapse lessThanFunc c s
             = Some (Inr (map_option fst (collapse_tree (cmp_of lessThanFunc) t), s')) \<and>
          (case collapse_tree (cmp_of lessThanFunc) t of
             None \<Rightarrow> t = Tip \<and> s' = s
           | Some r \<Rightarrow> tree_at s' r \<and> isolated s' (fst r) \<and> rdist r \<and> raddrs r = addrs t) \<and>
          (\<forall>m. m \<notin> addrs t \<longrightarrow> s' m = s m)"
proof (cases t)
  case Tip
  then show ?thesis using assms by (simp add: collapse_def chain_def)
next
  case (PNode l a x r)
  then have c: "c = Some a" using assms by (simp add: chain_def)
  from pass1_ok[OF assms(1,2), of None "[]" lessThanFunc] obtain tail' s1 where
    p1: "collapse_pass1 lessThanFunc c None s = Some (Inr (tail', s1))"
        "temps s1 tail' (pass1_acc (cmp_of lessThanFunc) t [])"
        "\<forall>m. m \<notin> addrs t \<longrightarrow> s1 m = s m"
    by auto
  obtain u us where us: "pass1_acc (cmp_of lessThanFunc) t [] = u # us"
    using pass1_acc_nonempty[of t "cmp_of lessThanFunc" "[]"] PNode
    by (cases "pass1_acc (cmp_of lessThanFunc) t []") auto
  have ld: "ldist (u # us)" and la: "laddrs (u # us) = addrs t"
    using ldist_pass1_acc[OF assms(2), of "[]" "cmp_of lessThanFunc"]
      laddrs_pass1_acc[of "cmp_of lessThanFunc" t "[]"] us by auto
  let ?r = "foldl (link (cmp_of lessThanFunc)) u us"
  from pass2_start[OF p1(2)[unfolded us] ld, of lessThanFunc] obtain s' where
    p2: "collapse_pass2 lessThanFunc None tail' s1 = Some (Some (fst ?r), s')"
        "tree_at s' ?r" "isolated s' (fst ?r)"
        "\<forall>m. m \<notin> laddrs (u # us) \<longrightarrow> s' m = s1 m"
    by auto
  have ct: "collapse_tree (cmp_of lessThanFunc) t = Some ?r"
    using us by (rule collapse_tree_eq)
  have "collapse lessThanFunc c s = Some (Inr (Some (fst ?r), s'))"
    using p1(1) p2(1) by (simp add: collapse_def c)
  moreover have "rdist ?r" using ld by (intro rdist_foldl_link) auto
  moreover have "raddrs ?r = addrs t" using la by simp
  moreover have "\<forall>m. m \<notin> addrs t \<longrightarrow> s' m = s m" using p1(3) p2(4) la by auto
  ultimately show ?thesis using p2(2,3) by (simp add: ct)
qed

section \<open>Unlinking a node\<close>

lemma cut_notin [simp]: "n \<notin> addrs t \<Longrightarrow> cut n t = t"
  by (induction t) auto

lemma addrs_cut: "addrs (cut n t) \<subseteq> addrs t"
  by (induction t) auto

lemma dist_cut: "dist t \<Longrightarrow> dist (cut n t)"
proof (induction t)
  case (PNode l a x r)
  then show ?case using addrs_cut[of n l] addrs_cut[of n r] by auto
qed simp

lemma notin_cut: "dist t \<Longrightarrow> n \<notin> addrs (cut n t)"
proof (induction t)
  case (PNode l a x r)
  then show ?case using addrs_cut[of n l] addrs_cut[of n r] by auto
qed simp

lemma sub_at_None: "sub_at n t = None \<longleftrightarrow> n \<notin> addrs t"
  by (induction t) (auto split: option.splits)

lemma sub_at_fst: "sub_at n t = Some u \<Longrightarrow> fst u = n"
  by (induction t) (auto split: option.splits if_splits)

lemma sub_at_tree:
  "repr s pv c t \<Longrightarrow> sub_at n t = Some u \<Longrightarrow> tree_at s u"
  by (induction t arbitrary: pv c) (auto split: option.splits if_splits)

lemma sub_at_parts:
  "dist t \<Longrightarrow> sub_at n t = Some (m, x, l) \<Longrightarrow>
     rdist (m, x, l) \<and> addrs l \<inter> addrs (cut n t) = {} \<and>
     addrs t = insert n (addrs l \<union> addrs (cut n t)) \<and>
     items t = add_mset x (items l + items (cut n t))"
proof (induction t)
  case Tip
  then show ?case by simp
next
  case (PNode tl a y tr)
  show ?case
  proof (cases "a = n")
    case True
    then show ?thesis using PNode.prems by auto
  next
    case False
    note an = this
    show ?thesis
    proof (cases "sub_at n tl")
      case None
      then have nl: "n \<notin> addrs tl" by (simp add: sub_at_None)
      from None PNode.prems an have sr: "sub_at n tr = Some (m, x, l)" by simp
      from PNode.IH(2)[OF _ sr] PNode.prems have ih:
        "rdist (m, x, l)" "addrs l \<inter> addrs (cut n tr) = {}"
        "addrs tr = insert n (addrs l \<union> addrs (cut n tr))"
        "items tr = add_mset x (items l + items (cut n tr))" by auto
      show ?thesis using ih an nl PNode.prems by auto
    next
      case (Some u)
      with PNode.prems an have sl: "sub_at n tl = Some (m, x, l)" by simp
      then have "n \<in> addrs tl" using sub_at_None[of n tl] by auto
      then have nr: "n \<notin> addrs tr" using PNode.prems by auto
      from PNode.IH(1)[OF _ sl] PNode.prems have ih:
        "rdist (m, x, l)" "addrs l \<inter> addrs (cut n tl) = {}"
        "addrs tl = insert n (addrs l \<union> addrs (cut n tl))"
        "items tl = add_mset x (items l + items (cut n tl))" by auto
      show ?thesis using ih an nr PNode.prems by auto
    qed
  qed
qed

lemma unlink_first:
  assumes "repr s (Some a) (child (s a)) (PNode ll n y lr)" "dist (PNode ll n y lr)"
    "a \<notin> addrs (PNode ll n y lr)"
  shows "prev (s n) = Some a \<and> repr (unlink n a s) (Some a) (child (unlink n a s a)) lr \<and>
         (\<forall>m. m \<noteq> a \<and> m \<notin> addrs lr \<longrightarrow> unlink n a s m = s m) \<and>
         unlink n a s a = (s a)\<lparr>child := nxt (s n)\<rparr>"
  using assms
  by (cases lr) (auto simp: unlink_def set_child_def set_prev_def)

lemma unlink_next:
  assumes "repr s (Some a) (nxt (s a)) (PNode ll n y lr)" "dist (PNode ll n y lr)"
    "a \<notin> addrs (PNode ll n y lr)" "child (s a) \<noteq> Some n"
  shows "prev (s n) = Some a \<and> repr (unlink n a s) (Some a) (nxt (unlink n a s a)) lr \<and>
         (\<forall>m. m \<noteq> a \<and> m \<notin> addrs lr \<longrightarrow> unlink n a s m = s m) \<and>
         unlink n a s a = (s a)\<lparr>nxt := nxt (s n)\<rparr>"
  using assms
  by (cases lr) (auto simp: unlink_def set_next_def set_prev_def)

lemma unlink_cut:
  assumes "repr s pv c t" "dist t" "n \<in> addrs t" "c \<noteq> Some n"
  shows "\<exists>p. prev (s n) = Some p \<and> repr (unlink n p s) pv c (cut n t) \<and>
             (\<forall>m. m \<notin> addrs (cut n t) \<longrightarrow> unlink n p s m = s m)"
  using assms
proof (induction t arbitrary: pv c)
  case Tip
  then show ?case by simp
next
  case (PNode l a x r)
  from PNode.prems have c: "c = Some a" and an: "a \<noteq> n"
    and ia: "item (s a) = Some x" and pa: "prev (s a) = pv"
    and rl: "repr s (Some a) (child (s a)) l" and rr: "repr s (Some a) (nxt (s a)) r"
    and dl: "dist l" and dr: "dist r" and al: "a \<notin> addrs l" and ar: "a \<notin> addrs r"
    and lr: "addrs l \<inter> addrs r = {}"
    by auto
  show ?case
  proof (cases "n \<in> addrs l")
    case True
    then have nr: "n \<notin> addrs r" using lr by auto
    show ?thesis
    proof (cases "child (s a) = Some n")
      case True
      then obtain ll y lr' where l: "l = PNode ll n y lr'"
        using rl by (cases l) auto
      from unlink_first[OF rl[unfolded l] dl[unfolded l] al[unfolded l]]
      have u: "prev (s n) = Some a"
        "repr (unlink n a s) (Some a) (child (unlink n a s a)) lr'"
        "\<forall>m. m \<noteq> a \<and> m \<notin> addrs lr' \<longrightarrow> unlink n a s m = s m"
        "unlink n a s a = (s a)\<lparr>child := nxt (s n)\<rparr>" by auto
      have "repr (unlink n a s) (Some a) (nxt (s a)) r"
        by (rule repr_frame[OF rr]) (use u(3) ar lr l in auto)
      then have "repr (unlink n a s) pv c (cut n (PNode l a x r))"
        using u an nr ia pa c l by simp
      moreover have "\<forall>m. m \<notin> addrs (cut n (PNode l a x r)) \<longrightarrow> unlink n a s m = s m"
        using u(3) an nr l by simp
      ultimately show ?thesis using u(1) by blast
    next
      case False
      from PNode.IH(1)[OF rl dl True False] obtain p where
        u: "prev (s n) = Some p" "repr (unlink n p s) (Some a) (child (s a)) (cut n l)"
           "\<forall>m. m \<notin> addrs (cut n l) \<longrightarrow> unlink n p s m = s m" by auto
      have sub: "addrs (cut n l) \<subseteq> addrs l" by (rule addrs_cut)
      have ua: "unlink n p s a = s a" using u(3) al sub by auto
      have "repr (unlink n p s) (Some a) (nxt (s a)) r"
        by (rule repr_frame[OF rr]) (use u(3) sub lr in auto)
      then have "repr (unlink n p s) pv c (cut n (PNode l a x r))"
        using u(2) ua an nr ia pa c by simp
      moreover have "\<forall>m. m \<notin> addrs (cut n (PNode l a x r)) \<longrightarrow> unlink n p s m = s m"
        using u(3) an nr by simp
      ultimately show ?thesis using u(1) by blast
    qed
  next
    case False
    then have nr: "n \<in> addrs r" using PNode.prems an by auto
    note nl = False
    have cn: "child (s a) \<noteq> Some n"
      using rl nl repr_root_in[of s "Some a" n l] by auto
    show ?thesis
    proof (cases "nxt (s a) = Some n")
      case True
      then obtain rl' y rr' where r: "r = PNode rl' n y rr'"
        using rr by (cases r) auto
      from unlink_next[OF rr[unfolded r] dr[unfolded r] ar[unfolded r] cn]
      have u: "prev (s n) = Some a"
        "repr (unlink n a s) (Some a) (nxt (unlink n a s a)) rr'"
        "\<forall>m. m \<noteq> a \<and> m \<notin> addrs rr' \<longrightarrow> unlink n a s m = s m"
        "unlink n a s a = (s a)\<lparr>nxt := nxt (s n)\<rparr>" by auto
      have "repr (unlink n a s) (Some a) (child (s a)) l"
        by (rule repr_frame[OF rl]) (use u(3) al lr r in auto)
      then have "repr (unlink n a s) pv c (cut n (PNode l a x r))"
        using u an nl ia pa c r by simp
      moreover have "\<forall>m. m \<notin> addrs (cut n (PNode l a x r)) \<longrightarrow> unlink n a s m = s m"
        using u(3) an nl r by simp
      ultimately show ?thesis using u(1) by blast
    next
      case False
      from PNode.IH(2)[OF rr dr nr False] obtain p where
        u: "prev (s n) = Some p" "repr (unlink n p s) (Some a) (nxt (s a)) (cut n r)"
           "\<forall>m. m \<notin> addrs (cut n r) \<longrightarrow> unlink n p s m = s m" by auto
      have sub: "addrs (cut n r) \<subseteq> addrs r" by (rule addrs_cut)
      have ua: "unlink n p s a = s a" using u(3) ar sub by auto
      have "repr (unlink n p s) (Some a) (child (s a)) l"
        by (rule repr_frame[OF rl]) (use u(3) sub lr in auto)
      then have "repr (unlink n p s) pv c (cut n (PNode l a x r))"
        using u(2) ua an nl ia pa c by simp
      moreover have "\<forall>m. m \<notin> addrs (cut n (PNode l a x r)) \<longrightarrow> unlink n p s m = s m"
        using u(3) an nl by simp
      ultimately show ?thesis using u(1) by blast
    qed
  qed
qed

section \<open>What delete, add and decreaseKey do to the heap\<close>

lemma oaddrs_simps [simp]: "oaddrs None = {}" "oaddrs (Some r) = raddrs r"
  by (simp_all add: oaddrs_def)

lemma oitems_simps [simp]: "oitems None = {#}" "oitems (Some r) = ritems r"
  by (simp_all add: oitems_def)

lemma ritems_link [simp]: "ritems (link cmp ta tb) = ritems ta + ritems tb"
  by (cases ta; cases tb) (simp add: link.simps)

lemma litems_sibs [simp]: "litems (sibs t) = items t"
  by (induction t) auto

lemma laddrs_sibs [simp]: "laddrs (sibs t) = addrs t"
  by (induction t) auto

lemma litems_pass1 [simp]: "litems (pass1_spec cmp ts) = litems ts"
  by (induction cmp ts rule: pass1_spec.induct) auto

lemma oitems_pass2 [simp]: "oitems (pass2_spec cmp ts) = litems ts"
  by (induction ts) (auto split: option.splits)

lemma oitems_collapse_tree [simp]: "oitems (collapse_tree cmp t) = items t"
  by (simp add: collapse_tree_def collapse_spec_def)

lemma collapse_tree_None [simp]: "collapse_tree cmp t = None \<longleftrightarrow> t = Tip"
proof
  assume n: "collapse_tree cmp t = None"
  have "items t = oitems (collapse_tree cmp t)" by simp
  also have "\<dots> = {#}" unfolding n by simp
  finally show "t = Tip" by (cases t) auto
next
  assume "t = Tip"
  then show "collapse_tree cmp t = None" by simp
qed

lemma tree_ok_simps [simp]:
  "tree_ok s root None = (root = None)"
  "tree_ok s root (Some r) =
     (root = Some (fst r) \<and> tree_at s r \<and> isolated s (fst r) \<and> rdist r)"
  by (simp_all add: tree_ok_def)

lemma tree_ok_frame:
  "tree_ok s root ro \<Longrightarrow> \<forall>a\<in>oaddrs ro. s' a = s a \<Longrightarrow> tree_ok s' root ro"
  by (cases ro) (auto intro: tree_at_frame simp: isolated_def)

lemma del_root_mem:
  assumes "tree_ok s root (Some (a, x, l))"
  shows "\<exists>s'. collapse lessThanFunc (child (s a)) s
             = Some (Inr (map_option fst (collapse_tree (cmp_of lessThanFunc) l), s')) \<and>
          tree_ok s' (map_option fst (collapse_tree (cmp_of lessThanFunc) l))
             (collapse_tree (cmp_of lessThanFunc) l) \<and>
          oaddrs (collapse_tree (cmp_of lessThanFunc) l) = addrs l \<and>
          (\<forall>m. m \<notin> addrs l \<longrightarrow> s' m = s m)"
proof -
  from assms have ch: "chain s (child (s a)) l" and d: "dist l"
    by (auto intro: repr_chain)
  from collapse_ok[OF ch d, of lessThanFunc] show ?thesis
    by (cases "collapse_tree (cmp_of lessThanFunc) l") auto
qed

lemma del_inner_mem:
  assumes "tree_ok s root (Some (a, x, l))" "n \<in> addrs l"
  shows "\<exists>p c s3 s4. prev (s n) = Some p \<and>
          collapse lessThanFunc (child (unlink n p s n)) (unlink n p s) = Some (Inr (c, s3)) \<and>
          merge lessThanFunc (Some a) c s3
             = (Some (fst (del_inner (cmp_of lessThanFunc) n (a, x, l))), s4) \<and>
          tree_ok s4 (Some (fst (del_inner (cmp_of lessThanFunc) n (a, x, l))))
             (Some (del_inner (cmp_of lessThanFunc) n (a, x, l))) \<and>
          raddrs (del_inner (cmp_of lessThanFunc) n (a, x, l)) = raddrs (a, x, l) - {n} \<and>
          add_mset (fst (snd (the (sub_at n l)))) (ritems (del_inner (cmp_of lessThanFunc) n (a, x, l)))
             = ritems (a, x, l) \<and>
          (\<forall>m. m \<notin> raddrs (a, x, l) \<longrightarrow> s4 m = s m)"
proof -
  let ?cmp = "cmp_of lessThanFunc"
  let ?t = "PNode l a x Tip"
  from assms have rt: "repr s None (Some a) ?t" and dt: "dist ?t" and an: "a \<noteq> n"
    by (auto simp: isolated_def)
  have nt: "n \<in> addrs ?t" using assms(2) by simp
  from unlink_cut[OF rt dt nt] an obtain p where
    p: "prev (s n) = Some p" and ru: "repr (unlink n p s) None (Some a) (cut n ?t)"
    and fu: "\<forall>m. m \<notin> addrs (cut n ?t) \<longrightarrow> unlink n p s m = s m"
    by auto
  let ?u = "unlink n p s"
  obtain m y ln where sa: "sub_at n l = Some (m, y, ln)"
    using assms(2) sub_at_None[of n l] by (cases "sub_at n l") auto
  then have mn: "m = n" using sub_at_fst by fastforce
  have sat: "sub_at n ?t = Some (n, y, ln)" using sa an mn by simp
  from sub_at_parts[OF dt sat] have parts:
    "rdist (n, y, ln)" "addrs ln \<inter> addrs (cut n ?t) = {}"
    "addrs ?t = insert n (addrs ln \<union> addrs (cut n ?t))"
    "items ?t = add_mset y (items ln + items (cut n ?t))" by auto
  have ncut: "n \<notin> addrs (cut n ?t)" using dt by (rule notin_cut)
  have ct: "cut n ?t = PNode (cut n l) a x Tip" using an by simp
  have dct: "dist (cut n ?t)" using dt by (rule dist_cut)
  have tn: "tree_at s (n, y, ln)" using sub_at_tree[OF rt sat] .
  have tnu: "tree_at ?u (n, y, ln)"
    by (rule tree_at_frame[OF tn]) (use fu parts(2) ncut in auto)
  then have ch: "chain ?u (child (?u n)) ln" by (auto intro: repr_chain)
  from collapse_ok[OF ch, of lessThanFunc] parts(1) obtain s3 where
    co: "collapse lessThanFunc (child (?u n)) ?u
           = Some (Inr (map_option fst (collapse_tree ?cmp ln), s3))"
    and cr: "case collapse_tree ?cmp ln of
               None \<Rightarrow> ln = Tip \<and> s3 = ?u
             | Some r \<Rightarrow> tree_at s3 r \<and> isolated s3 (fst r) \<and> rdist r \<and> raddrs r = addrs ln"
    and f3: "\<forall>m. m \<notin> addrs ln \<longrightarrow> s3 m = ?u m"
    by auto
  have ta3: "tree_at s3 (a, x, cut n l)" "isolated s3 a"
    using ru f3 parts(2) ct
    by (auto simp: isolated_def intro!: repr_frame[of ?u _ _ _ s3])
  have da: "rdist (a, x, cut n l)" using dct ct by simp
  show ?thesis
  proof (cases "collapse_tree ?cmp ln")
    case None
    then have di: "del_inner ?cmp n (a, x, l) = (a, x, cut n l)" by (simp add: sa)
    from None cr have s3u: "s3 = ?u" and lnT: "ln = Tip" by auto
    have "merge lessThanFunc (Some a) None s3 = (Some a, s3)" by (simp add: merge_def)
    moreover have "tree_ok s3 (Some a) (Some (a, x, cut n l))" using ta3 da by simp
    moreover have "raddrs (a, x, cut n l) = raddrs (a, x, l) - {n}"
      using parts(3) ncut lnT ct an by auto
    moreover have "add_mset y (ritems (a, x, cut n l)) = ritems (a, x, l)"
      using parts(4) lnT ct by simp
    moreover have "\<forall>m. m \<notin> raddrs (a, x, l) \<longrightarrow> s3 m = s m"
      using fu s3u parts(3) by auto
    ultimately show ?thesis using p co None di sa by auto
  next
    case (Some r)
    then have di: "del_inner ?cmp n (a, x, l) = link ?cmp (a, x, cut n l) r" by (simp add: sa)
    from Some cr have r: "tree_at s3 r" "rdist r" "raddrs r = addrs ln" by auto
    have dj: "raddrs (a, x, cut n l) \<inter> raddrs r = {}"
      using r(3) parts(2) ct by auto
    from merge_link[OF ta3(1) r(1) da r(2) dj, of lessThanFunc] obtain s4 where
      m: "merge lessThanFunc (Some a) (Some (fst r)) s3
            = (Some (fst (link ?cmp (a, x, cut n l) r)), s4)"
      and t4: "tree_at s4 (link ?cmp (a, x, cut n l) r)"
      and i4: "isolated s4 (fst (link ?cmp (a, x, cut n l) r))"
      and f4: "\<forall>m. m \<notin> raddrs (a, x, cut n l) \<union> raddrs r \<longrightarrow> s4 m = s3 m"
      by (auto simp: isolated_def)
    have "tree_ok s4 (Some (fst (link ?cmp (a, x, cut n l) r))) (Some (link ?cmp (a, x, cut n l) r))"
      using t4 i4 rdist_link[OF da r(2) dj] by simp
    moreover have "raddrs (link ?cmp (a, x, cut n l) r) = raddrs (a, x, l) - {n}"
      using parts(1,2,3) ncut r(3) ct an by auto
    moreover have "add_mset y (ritems (link ?cmp (a, x, cut n l) r)) = ritems (a, x, l)"
      using parts(4) ct oitems_collapse_tree[of ?cmp ln] Some by simp
    moreover have "\<forall>m. m \<notin> raddrs (a, x, l) \<longrightarrow> s4 m = s m"
      using fu f3 f4 parts(3) r(3) ct by auto
    ultimately show ?thesis using p co m Some di sa by auto
  qed
qed

declare del_inner.simps [simp del]

lemma raddrs_add_abs [simp]: "raddrs (add_abs cmp n x ro) = insert n (oaddrs ro)"
  by (cases ro) (auto simp: add_abs_def)

lemma ritems_add_abs [simp]: "ritems (add_abs cmp n x ro) = add_mset x (oitems ro)"
  by (cases ro) (auto simp: add_abs_def)

lemma add_merge:
  assumes "tree_ok s root ro" "n \<notin> oaddrs ro" "item (s n) = Some x" "child (s n) = None"
    "isolated s n"
  shows "\<exists>s'. merge lessThanFunc root (Some n) s
             = (Some (fst (add_abs (cmp_of lessThanFunc) n x ro)), s') \<and>
          tree_ok s' (Some (fst (add_abs (cmp_of lessThanFunc) n x ro)))
             (Some (add_abs (cmp_of lessThanFunc) n x ro)) \<and>
          (\<forall>m. m \<noteq> n \<and> m \<notin> oaddrs ro \<longrightarrow> s' m = s m)"
proof (cases ro)
  case None
  then show ?thesis using assms by (simp add: merge_def add_abs_def)
next
  case (Some r)
  let ?tn = "(n, x, Tip)"
  have tn: "tree_at s ?tn" "rdist ?tn" using assms by auto
  from Some assms have r: "root = Some (fst r)" "tree_at s r" "rdist r"
    "raddrs r \<inter> raddrs ?tn = {}" by auto
  from merge_link[OF r(2) tn(1) r(3) tn(2) r(4), of lessThanFunc] obtain s' where
    m: "merge lessThanFunc (Some (fst r)) (Some n) s
          = (Some (fst (link (cmp_of lessThanFunc) r ?tn)), s')"
       "tree_at s' (link (cmp_of lessThanFunc) r ?tn)"
       "isolated s' (fst (link (cmp_of lessThanFunc) r ?tn))"
       "\<forall>m. m \<notin> raddrs r \<union> raddrs ?tn \<longrightarrow> s' m = s m"
    by (auto simp: isolated_def)
  have "rdist (link (cmp_of lessThanFunc) r ?tn)" using r(3) tn(2) r(4) by (rule rdist_link)
  then show ?thesis using m r(1) Some by (auto simp: add_abs_def)
qed

lemma add_shape:
  assumes "heap_shape h ro"
  shows "\<exists>n h'. add lessThanFunc x h = (n, h') \<and> n \<notin> oaddrs ro \<and>
           heap_shape h' (Some (add_abs (cmp_of lessThanFunc) n x ro)) \<and>
           (\<forall>m. m \<noteq> n \<and> m \<notin> oaddrs ro \<longrightarrow> mem h' m = mem h m) \<and>
           (fresh h' = fresh h \<and> n < fresh h \<or> fresh h' = Suc (fresh h) \<and> n = fresh h)"
proof -
  let ?cmp = "cmp_of lessThanFunc"
  from assms have tk: "tree_ok (mem h) (h_root h) ro"
    and sz: "h_size h = int (size (oitems ro))"
    and fb: "\<forall>a\<in>oaddrs ro. a < fresh h" and pk: "pool_ok h (oaddrs ro)"
    by (auto simp: heap_shape_def)
  define got where "got = (case h_objectPool h of None \<Rightarrow> None | Some p \<Rightarrow> fst (pool_get p))"
  define pool' where
    "pool' = (case h_objectPool h of None \<Rightarrow> None | Some p \<Rightarrow> Some (snd (pool_get p)))"
  define n where "n = (case got of None \<Rightarrow> fresh h | Some m \<Rightarrow> m)"
  define s1 where "s1 = (case got of
       None \<Rightarrow> (mem h)(fresh h := \<lparr>item = Some x, child = None, nxt = None, prev = None\<rparr>)
     | Some m \<Rightarrow> set_item m (Some x) (mem h))"
  define fresh' where "fresh' = (case got of None \<Rightarrow> Suc (fresh h) | Some m \<Rightarrow> fresh h)"
  have addeq: "add lessThanFunc x h =
      (n, h\<lparr>mem := snd (merge lessThanFunc (h_root h) (Some n) s1), fresh := fresh',
            h_objectPool := pool', h_size := h_size h + 1,
            h_root := fst (merge lessThanFunc (h_root h) (Some n) s1)\<rparr>)"
    by (auto simp: add_def got_def pool'_def n_def s1_def fresh'_def Let_def
          split: option.splits prod.splits)
  have nprops: "n \<notin> oaddrs ro \<and> item (s1 n) = Some x \<and> child (s1 n) = None \<and> isolated s1 n \<and>
      (\<forall>m. m \<noteq> n \<longrightarrow> s1 m = mem h m) \<and> n < fresh' \<and>
      (fresh' = fresh h \<and> n < fresh h \<or> fresh' = Suc (fresh h) \<and> n = fresh h)"
  proof (cases got)
    case None
    then show ?thesis using fb by (auto simp: n_def s1_def fresh'_def isolated_def)
  next
    case (Some m)
    then obtain p where p: "h_objectPool h = Some p" "fst (pool_get p) = Some m"
      by (auto simp: got_def split: option.splits)
    then have "m \<in> set (pool_items p)"
      by (auto simp: pool_get_def split: list.splits)
    then show ?thesis using pk p Some
      by (auto simp: pool_ok_def n_def s1_def fresh'_def isolated_def set_item_def)
  qed
  have "n \<notin> oaddrs ro" "\<forall>m. m \<noteq> n \<longrightarrow> s1 m = mem h m" using nprops by simp_all
  then have "\<forall>a\<in>oaddrs ro. s1 a = mem h a" by auto
  then have t1: "tree_ok s1 (h_root h) ro"
    by (rule tree_ok_frame[OF tk])
  from add_merge[OF t1, of n x lessThanFunc] nprops obtain s' where
    m: "merge lessThanFunc (h_root h) (Some n) s1 = (Some (fst (add_abs ?cmp n x ro)), s')"
       "tree_ok s' (Some (fst (add_abs ?cmp n x ro))) (Some (add_abs ?cmp n x ro))"
       "\<forall>m. m \<noteq> n \<and> m \<notin> oaddrs ro \<longrightarrow> s' m = s1 m"
    by auto
  let ?h' = "h\<lparr>mem := s', fresh := fresh', h_objectPool := pool', h_size := h_size h + 1,
            h_root := Some (fst (add_abs ?cmp n x ro))\<rparr>"
  have fr: "\<forall>m. m \<noteq> n \<and> m \<notin> oaddrs ro \<longrightarrow> s' m = mem h m"
    using m(3) nprops by auto
  have pk': "pool_ok ?h' (insert n (oaddrs ro))"
  proof (cases "h_objectPool h")
    case None
    then show ?thesis by (simp add: pool_ok_def pool'_def)
  next
    case (Some p)
    show ?thesis
    proof (cases "pool_items p")
      case Nil
      then have "got = None" "pool' = Some p"
        using Some by (auto simp: got_def pool'_def pool_get_def)
      then show ?thesis using pk Some Nil by (simp add: pool_ok_def)
    next
      case (Cons m ms)
      then have g: "got = Some m" "pool' = Some (p\<lparr>pool_items := ms\<rparr>)"
        using Some by (auto simp: got_def pool'_def pool_get_def)
      then have nm: "n = m" "fresh' = fresh h" by (auto simp: n_def fresh'_def)
      show ?thesis using pk Some Cons g nm fr
        by (auto simp: pool_ok_def)
    qed
  qed
  have "heap_shape ?h' (Some (add_abs ?cmp n x ro))"
    using m(2) sz fb nprops pk' by (auto simp: heap_shape_def)
  then show ?thesis using addeq m(1) nprops fr by auto
qed

lemma delete_finish_shape:
  assumes "heap_shape h ro" "n \<in> oaddrs ro" "tree_ok s' r' ro'" "oaddrs ro' = oaddrs ro - {n}"
    "\<forall>m. m \<notin> oaddrs ro \<longrightarrow> s' m = mem h m" "int (size (oitems ro')) = h_size h - 1"
  shows "heap_shape (delete_finish n (h\<lparr>mem := s', h_root := r'\<rparr>)) ro' \<and>
         cleared (mem (delete_finish n (h\<lparr>mem := s', h_root := r'\<rparr>)) n) \<and>
         (\<forall>m. m \<notin> oaddrs ro \<longrightarrow> mem (delete_finish n (h\<lparr>mem := s', h_root := r'\<rparr>)) m = mem h m)"
proof -
  let ?h' = "delete_finish n (h\<lparr>mem := s', h_root := r'\<rparr>)"
  have mem': "\<forall>m. mem ?h' m = (if m = n then \<lparr>item = None, child = None, nxt = None, prev = None\<rparr>
        else s' m)"
    by (auto simp: delete_finish_def Let_def set_child_def set_prev_def set_next_def set_item_def)
  have root': "h_root ?h' = r'" "fresh ?h' = fresh h" "h_size ?h' = h_size h - 1"
    "h_objectPool ?h' = map_option (pool_release n) (h_objectPool h)"
    by (auto simp: delete_finish_def Let_def)
  have t: "tree_ok (mem ?h') r' ro'"
    by (rule tree_ok_frame[OF assms(3)]) (use mem' assms(4) in auto)
  from assms(1) have fb: "\<forall>a\<in>oaddrs ro. a < fresh h" and pk: "pool_ok h (oaddrs ro)"
    by (auto simp: heap_shape_def)
  have pk': "pool_ok ?h' (oaddrs ro')"
  proof (cases "h_objectPool h")
    case None
    then show ?thesis using root' by (simp add: pool_ok_def)
  next
    case (Some p)
    have old: "\<forall>m\<in>set (pool_items p). m \<notin> oaddrs ro \<and> m < fresh h \<and>
          child (mem ?h' m) = None \<and> nxt (mem ?h' m) = None \<and> prev (mem ?h' m) = None"
      using pk Some mem' assms(5) by (auto simp: pool_ok_def)
    have new: "n \<notin> set (pool_items p) \<and> n \<notin> oaddrs ro' \<and> n < fresh h \<and>
          child (mem ?h' n) = None \<and> nxt (mem ?h' n) = None \<and> prev (mem ?h' n) = None"
      using pk Some mem' assms(2,4) fb by (auto simp: pool_ok_def)
    have dp: "distinct (pool_items p)" using pk Some by (simp add: pool_ok_def)
    show ?thesis using old new dp root' Some assms(4)
      by (auto simp: pool_ok_def pool_release_def)
  qed
  have "heap_shape ?h' ro'"
    using t root' assms(4,6) fb pk' by (auto simp: heap_shape_def)
  moreover have "cleared (mem ?h' n)" using mem' by (simp add: cleared_def)
  moreover have "\<forall>m. m \<notin> oaddrs ro \<longrightarrow> mem ?h' m = mem h m"
    using mem' assms(2,5) by auto
  ultimately show ?thesis by blast
qed

lemma delete_unlink_eq:
  "delete lessThanFunc node h =
     (if Some node = h_root h then
        (case collapse lessThanFunc (child (mem h node)) (mem h) of
           None \<Rightarrow> None
         | Some (Inl e) \<Rightarrow> Some (Inl e)
         | Some (Inr (r, s1)) \<Rightarrow> Some (Inr (delete_finish node (h\<lparr>mem := s1, h_root := r\<rparr>))))
      else
        (case prev (mem h node) of
           None \<Rightarrow> if h_objectPool h \<noteq> None then Some (Inl AlreadyDeleted) else Some (Inr h)
         | Some p \<Rightarrow>
            (case collapse lessThanFunc (child (unlink node p (mem h) node)) (unlink node p (mem h)) of
               None \<Rightarrow> None
             | Some (Inl e) \<Rightarrow> Some (Inl e)
             | Some (Inr (c, s3)) \<Rightarrow>
                (case merge lessThanFunc (h_root h) c s3 of
                   (r, s4) \<Rightarrow> Some (Inr (delete_finish node (h\<lparr>mem := s4, h_root := r\<rparr>)))))))"
  by (simp add: delete_def unlink_def Let_def split: option.splits)

lemma delete_shape:
  assumes "heap_shape h ro" "n \<in> oaddrs ro"
  shows "\<exists>h'. delete lessThanFunc n h = Some (Inr h') \<and>
           heap_shape h' (delete_abs (cmp_of lessThanFunc) n ro) \<and>
           oaddrs (delete_abs (cmp_of lessThanFunc) n ro) = oaddrs ro - {n} \<and>
           add_mset (the (label_of n ro)) (oitems (delete_abs (cmp_of lessThanFunc) n ro)) = oitems ro \<and>
           cleared (mem h' n) \<and>
           (\<forall>m. m \<notin> oaddrs ro \<longrightarrow> mem h' m = mem h m) \<and>
           fresh h' = fresh h \<and>
           h_objectPool h' = map_option (pool_release n) (h_objectPool h)"
proof -
  let ?cmp = "cmp_of lessThanFunc"
  obtain a x l where ro: "ro = Some (a, x, l)" using assms(2) by (cases ro) auto
  from assms(1) have tk: "tree_ok (mem h) (h_root h) (Some (a, x, l))"
    and sz: "h_size h = int (size (ritems (a, x, l)))"
    by (auto simp: heap_shape_def ro)
  then have root: "h_root h = Some a" and al: "a \<notin> addrs l" by auto
  show ?thesis
  proof (cases "n = a")
    case True
    let ?ro' = "collapse_tree ?cmp l"
    from del_root_mem[OF tk, of lessThanFunc] obtain s' where
      c: "collapse lessThanFunc (child (mem h a)) (mem h) = Some (Inr (map_option fst ?ro', s'))"
         "tree_ok s' (map_option fst ?ro') ?ro'" "oaddrs ?ro' = addrs l"
         "\<forall>m. m \<notin> addrs l \<longrightarrow> s' m = mem h m"
      by auto
    have da: "delete_abs ?cmp n ro = ?ro'" using True by (simp add: delete_abs_def ro)
    have oa: "oaddrs ?ro' = oaddrs ro - {n}" using c(3) al True by (auto simp: ro)
    have fr: "\<forall>m. m \<notin> oaddrs ro \<longrightarrow> s' m = mem h m" using c(4) by (auto simp: ro)
    have sz': "int (size (oitems ?ro')) = h_size h - 1" using sz by simp
    let ?h' = "delete_finish n (h\<lparr>mem := s', h_root := map_option fst ?ro'\<rparr>)"
    from delete_finish_shape[OF assms c(2) oa fr sz']
    have f: "heap_shape ?h' ?ro'" "cleared (mem ?h' n)"
      "\<forall>m. m \<notin> oaddrs ro \<longrightarrow> mem ?h' m = mem h m" by auto
    have d: "delete lessThanFunc n h = Some (Inr ?h')"
      using c(1) root True by (simp add: delete_unlink_eq)
    have lab: "add_mset (the (label_of n ro)) (oitems ?ro') = oitems ro"
      using True by (simp add: label_of_def ro)
    have "fresh ?h' = fresh h \<and> h_objectPool ?h' = map_option (pool_release n) (h_objectPool h)"
      by (simp add: delete_finish_def Let_def)
    then show ?thesis using d f oa lab unfolding da by blast
  next
    case False
    then have nl: "n \<in> addrs l" using assms(2) by (simp add: ro)
    let ?r' = "del_inner ?cmp n (a, x, l)"
    from del_inner_mem[OF tk nl, of lessThanFunc] obtain p c s3 s4 where
      m: "prev (mem h n) = Some p"
         "collapse lessThanFunc (child (unlink n p (mem h) n)) (unlink n p (mem h)) = Some (Inr (c, s3))"
         "merge lessThanFunc (Some a) c s3 = (Some (fst ?r'), s4)"
         "tree_ok s4 (Some (fst ?r')) (Some ?r')"
         "raddrs ?r' = raddrs (a, x, l) - {n}"
         "add_mset (fst (snd (the (sub_at n l)))) (ritems ?r') = ritems (a, x, l)"
         "\<forall>m. m \<notin> raddrs (a, x, l) \<longrightarrow> s4 m = mem h m"
      by blast
    have da: "delete_abs ?cmp n ro = Some ?r'" using False by (simp add: delete_abs_def ro)
    have oa: "oaddrs (Some ?r') = oaddrs ro - {n}" using m(5) by (simp add: ro)
    have fr: "\<forall>m. m \<notin> oaddrs ro \<longrightarrow> s4 m = mem h m" using m(7) by (simp add: ro)
    have "size (ritems (a, x, l)) = Suc (size (ritems ?r'))"
      using arg_cong[OF m(6), of size] by simp
    then have sz': "int (size (oitems (Some ?r'))) = h_size h - 1" using sz by simp
    let ?h' = "delete_finish n (h\<lparr>mem := s4, h_root := Some (fst ?r')\<rparr>)"
    from delete_finish_shape[OF assms m(4) oa fr sz']
    have f: "heap_shape ?h' (Some ?r')" "cleared (mem ?h' n)"
      "\<forall>m. m \<notin> oaddrs ro \<longrightarrow> mem ?h' m = mem h m" by auto
    have d: "delete lessThanFunc n h = Some (Inr ?h')"
      using m(1,2,3) root False by (simp add: delete_unlink_eq)
    have "sub_at n l \<noteq> None" using nl by (simp add: sub_at_None)
    then have lab: "add_mset (the (label_of n ro)) (oitems (Some ?r')) = oitems ro"
      using False m(6) by (auto simp: label_of_def ro)
    have "fresh ?h' = fresh h \<and> h_objectPool ?h' = map_option (pool_release n) (h_objectPool h)"
      by (simp add: delete_finish_def Let_def)
    then show ?thesis using d f oa lab unfolding da by blast
  qed
qed

lemma dec_inner_mem:
  assumes "tree_ok s root (Some (a, x, l))" "n \<in> addrs l"
  shows "\<exists>p s'. prev (s n) = Some p \<and>
          merge lessThanFunc (Some a) (Some n) (unlink n p s)
             = (Some (fst (dec_inner (cmp_of lessThanFunc) n (a, x, l))), s') \<and>
          tree_ok s' (Some (fst (dec_inner (cmp_of lessThanFunc) n (a, x, l))))
             (Some (dec_inner (cmp_of lessThanFunc) n (a, x, l))) \<and>
          raddrs (dec_inner (cmp_of lessThanFunc) n (a, x, l)) = raddrs (a, x, l) \<and>
          ritems (dec_inner (cmp_of lessThanFunc) n (a, x, l)) = ritems (a, x, l) \<and>
          (\<forall>m. m \<notin> raddrs (a, x, l) \<longrightarrow> s' m = s m)"
proof -
  let ?cmp = "cmp_of lessThanFunc"
  let ?t = "PNode l a x Tip"
  from assms have rt: "repr s None (Some a) ?t" and dt: "dist ?t" and an: "a \<noteq> n"
    by (auto simp: isolated_def)
  have nt: "n \<in> addrs ?t" using assms(2) by simp
  from unlink_cut[OF rt dt nt] an obtain p where
    p: "prev (s n) = Some p" and ru: "repr (unlink n p s) None (Some a) (cut n ?t)"
    and fu: "\<forall>m. m \<notin> addrs (cut n ?t) \<longrightarrow> unlink n p s m = s m"
    by auto
  let ?u = "unlink n p s"
  obtain m y ln where sa: "sub_at n l = Some (m, y, ln)"
    using assms(2) sub_at_None[of n l] by (cases "sub_at n l") auto
  then have mn: "m = n" using sub_at_fst by fastforce
  have sat: "sub_at n ?t = Some (n, y, ln)" using sa an mn by simp
  from sub_at_parts[OF dt sat] have parts:
    "rdist (n, y, ln)" "addrs ln \<inter> addrs (cut n ?t) = {}"
    "addrs ?t = insert n (addrs ln \<union> addrs (cut n ?t))"
    "items ?t = add_mset y (items ln + items (cut n ?t))" by auto
  have ncut: "n \<notin> addrs (cut n ?t)" using dt by (rule notin_cut)
  have ct: "cut n ?t = PNode (cut n l) a x Tip" using an by simp
  have dct: "dist (cut n ?t)" using dt by (rule dist_cut)
  have tn: "tree_at s (n, y, ln)" using sub_at_tree[OF rt sat] .
  have tnu: "tree_at ?u (n, y, ln)"
    by (rule tree_at_frame[OF tn]) (use fu parts(2) ncut in auto)
  have tau: "tree_at ?u (a, x, cut n l)" using ru ct by simp
  have da: "rdist (a, x, cut n l)" using dct ct by simp
  have dj: "raddrs (a, x, cut n l) \<inter> raddrs (n, y, ln) = {}"
    using parts(2) ncut ct by auto
  have di: "dec_inner ?cmp n (a, x, l) = link ?cmp (a, x, cut n l) (n, y, ln)"
    by (simp add: sa mn)
  from merge_link[OF tau tnu da parts(1) dj, of lessThanFunc] obtain s' where
    m: "merge lessThanFunc (Some a) (Some n) ?u
          = (Some (fst (link ?cmp (a, x, cut n l) (n, y, ln))), s')"
    and t4: "tree_at s' (link ?cmp (a, x, cut n l) (n, y, ln))"
    and i4: "isolated s' (fst (link ?cmp (a, x, cut n l) (n, y, ln)))"
    and f4: "\<forall>m. m \<notin> raddrs (a, x, cut n l) \<union> raddrs (n, y, ln) \<longrightarrow> s' m = ?u m"
    by (auto simp: isolated_def)
  have "tree_ok s' (Some (fst (link ?cmp (a, x, cut n l) (n, y, ln))))
          (Some (link ?cmp (a, x, cut n l) (n, y, ln)))"
    using t4 i4 rdist_link[OF da parts(1) dj] by simp
  moreover have "raddrs (link ?cmp (a, x, cut n l) (n, y, ln)) = raddrs (a, x, l)"
    using parts(3) ct by auto
  moreover have "ritems (link ?cmp (a, x, cut n l) (n, y, ln)) = ritems (a, x, l)"
    using parts(4) ct by simp
  moreover have "\<forall>m. m \<notin> raddrs (a, x, l) \<longrightarrow> s' m = s m"
    using fu f4 parts(3) ct by auto
  ultimately show ?thesis using p m unfolding di by blast
qed

declare dec_inner.simps [simp del]

lemma decreaseKey_unlink_eq:
  "decreaseKey lessThanFunc node h =
     (if Some node = h_root h then Inr h
      else
        (case prev (mem h node) of
           None \<Rightarrow> Inl TypeError
         | Some p \<Rightarrow>
            (case merge lessThanFunc (h_root h) (Some node) (unlink node p (mem h)) of
               (r, s3) \<Rightarrow> Inr (h\<lparr>mem := s3, h_root := r\<rparr>))))"
  by (simp add: decreaseKey_def unlink_def Let_def split: option.splits)

lemma decreaseKey_shape:
  assumes "heap_shape h ro" "n \<in> oaddrs ro"
  shows "\<exists>h'. decreaseKey lessThanFunc n h = Inr h' \<and>
           heap_shape h' (decrease_abs (cmp_of lessThanFunc) n ro) \<and>
           oaddrs (decrease_abs (cmp_of lessThanFunc) n ro) = oaddrs ro \<and>
           oitems (decrease_abs (cmp_of lessThanFunc) n ro) = oitems ro \<and>
           (\<forall>m. m \<notin> oaddrs ro \<longrightarrow> mem h' m = mem h m) \<and>
           fresh h' = fresh h \<and> h_objectPool h' = h_objectPool h \<and> h_size h' = h_size h"
proof -
  let ?cmp = "cmp_of lessThanFunc"
  obtain a x l where ro: "ro = Some (a, x, l)" using assms(2) by (cases ro) auto
  from assms(1) have tk: "tree_ok (mem h) (h_root h) (Some (a, x, l))"
    and sz: "h_size h = int (size (ritems (a, x, l)))"
    and fb: "\<forall>m\<in>raddrs (a, x, l). m < fresh h"
    and pk: "pool_ok h (raddrs (a, x, l))"
    by (auto simp: heap_shape_def ro)
  then have root: "h_root h = Some a" by auto
  show ?thesis
  proof (cases "n = a")
    case True
    then show ?thesis using assms root
      by (simp add: decreaseKey_unlink_eq decrease_abs_def ro)
  next
    case False
    then have nl: "n \<in> addrs l" using assms(2) by (simp add: ro)
    let ?r' = "dec_inner ?cmp n (a, x, l)"
    from dec_inner_mem[OF tk nl, of lessThanFunc] obtain p s' where
      m: "prev (mem h n) = Some p"
         "merge lessThanFunc (Some a) (Some n) (unlink n p (mem h)) = (Some (fst ?r'), s')"
         "tree_ok s' (Some (fst ?r')) (Some ?r')"
         "raddrs ?r' = raddrs (a, x, l)"
         "ritems ?r' = ritems (a, x, l)"
         "\<forall>m. m \<notin> raddrs (a, x, l) \<longrightarrow> s' m = mem h m"
      by blast
    let ?h' = "h\<lparr>mem := s', h_root := Some (fst ?r')\<rparr>"
    have da: "decrease_abs ?cmp n ro = Some ?r'" using False by (simp add: decrease_abs_def ro)
    have d: "decreaseKey lessThanFunc n h = Inr ?h'"
      using m(1,2) root False by (simp add: decreaseKey_unlink_eq)
    have pk': "pool_ok ?h' (raddrs ?r')"
      using pk m(4,6) by (auto simp: pool_ok_def split: option.splits)
    have "heap_shape ?h' (Some ?r')"
      using m(3,4,5) sz fb pk' by (simp add: heap_shape_def)
    then show ?thesis using d m(4,5,6) unfolding da by (auto simp: ro)
  qed
qed

lemma relabel_notin [simp]: "n \<notin> addrs t \<Longrightarrow> relabel n v t = t"
  by (induction t) auto

lemma addrs_relabel [simp]: "addrs (relabel n v t) = addrs t"
  by (induction t) auto

lemma dist_relabel [simp]: "dist (relabel n v t) = dist t"
  by (induction t) auto

lemma size_items_relabel [simp]: "size (items (relabel n v t)) = size (items t)"
  by (induction t) auto

lemma repr_set_item:
  "repr s pv c t \<Longrightarrow> repr (set_item n (Some v) s) pv c (relabel n v t)"
  by (induction t arbitrary: pv c) (auto simp: set_item_def)

lemma set_item_shape:
  assumes "heap_shape h ro"
  shows "heap_shape (h\<lparr>mem := set_item n (Some v) (mem h)\<rparr>) (map_option (rrelabel n v) ro)"
proof (cases ro)
  case None
  then show ?thesis using assms
    by (auto simp: heap_shape_def pool_ok_def set_item_def split: option.splits)
next
  case (Some r)
  obtain a x l where r: "r = (a, x, l)" by (cases r)
  from assms have "repr (mem h) (Some a) (child (mem h a)) l"
    by (simp add: heap_shape_def Some r)
  from repr_set_item[OF this, of n v]
  have "repr (set_item n (Some v) (mem h)) (Some a) (child (mem h a)) (relabel n v l)" .
  then show ?thesis using assms
    by (auto simp: heap_shape_def pool_ok_def set_item_def Some r isolated_def
          split: option.splits)
qed

section \<open>Heap order\<close>

lemma oheap_simps [simp]: "oheap cmp None" "oheap cmp (Some r) = rheap cmp r"
  by (simp_all add: oheap_def)

lemma swo_asym: "swo cmp \<Longrightarrow> cmp x y \<Longrightarrow> \<not> cmp y x"
  unfolding swo_def by blast

lemma swo_trans: "swo cmp \<Longrightarrow> cmp x y \<Longrightarrow> cmp y z \<Longrightarrow> cmp x z"
  unfolding swo_def by blast

lemma swo_negtrans: "swo cmp \<Longrightarrow> \<not> cmp x y \<Longrightarrow> \<not> cmp y z \<Longrightarrow> \<not> cmp x z"
  unfolding swo_def by blast

lemma rheap_link:
  assumes "swo cmp" "rheap cmp ta" "rheap cmp tb"
  shows "rheap cmp (link cmp ta tb)"
proof -
  obtain a x la where ta: "ta = (a, x, la)" by (cases ta)
  obtain b y lb where tb: "tb = (b, y, lb)" by (cases tb)
  show ?thesis
  proof (cases "cmp y x")
    case True
    have "\<not> cmp x y" using swo_asym[OF assms(1) True] .
    moreover have "\<forall>z\<in>#items la. \<not> cmp z y"
    proof
      fix z assume "z \<in># items la"
      then have "\<not> cmp z x" using assms(2) unfolding ta by simp
      then show "\<not> cmp z y" using swo_trans[OF assms(1), of z y x] True by blast
    qed
    ultimately show ?thesis using assms(2,3) True unfolding ta tb
      by (auto simp: link.simps)
  next
    case False
    have "\<forall>z\<in>#items lb. \<not> cmp z x"
    proof
      fix z assume "z \<in># items lb"
      then have "\<not> cmp z y" using assms(3) unfolding tb by simp
      then show "\<not> cmp z x" using swo_negtrans[OF assms(1), of z y x] False by blast
    qed
    then show ?thesis using assms(2,3) False unfolding ta tb
      by (auto simp: link.simps)
  qed
qed

lemma rheap_sibs: "pheap cmp t \<Longrightarrow> list_all (rheap cmp) (sibs t)"
  by (induction t) auto

lemma rheap_pass1:
  "swo cmp \<Longrightarrow> list_all (rheap cmp) ts \<Longrightarrow> list_all (rheap cmp) (pass1_spec cmp ts)"
  by (induction cmp ts rule: pass1_spec.induct) (auto intro: rheap_link)

lemma rheap_pass2:
  "swo cmp \<Longrightarrow> list_all (rheap cmp) ts \<Longrightarrow> oheap cmp (pass2_spec cmp ts)"
  by (induction ts) (auto intro: rheap_link split: option.splits)

lemma oheap_collapse_tree: "swo cmp \<Longrightarrow> pheap cmp t \<Longrightarrow> oheap cmp (collapse_tree cmp t)"
  unfolding collapse_tree_def collapse_spec_def
  by (rule rheap_pass2, assumption, rule rheap_pass1, assumption, rule rheap_sibs)

lemma items_cut: "set_mset (items (cut n t)) \<subseteq> set_mset (items t)"
  by (induction t) auto

lemma pheap_cut: "pheap cmp t \<Longrightarrow> pheap cmp (cut n t)"
proof (induction t)
  case (PNode l a x r)
  then show ?case using items_cut[of n l] by auto
qed simp

lemma rheap_sub_at: "pheap cmp t \<Longrightarrow> sub_at n t = Some u \<Longrightarrow> rheap cmp u"
  by (induction t) (auto split: option.splits if_splits)

lemma rheap_del_inner:
  assumes "swo cmp" "rheap cmp (a, x, l)"
  shows "rheap cmp (del_inner cmp n (a, x, l))"
proof (cases "sub_at n l")
  case None
  then show ?thesis using assms by (simp add: del_inner.simps)
next
  case (Some u)
  obtain m y ln where u: "u = (m, y, ln)" by (cases u)
  have ru: "rheap cmp (m, y, ln)" using assms(2) Some u rheap_sub_at[of cmp l n u] by simp
  have rc: "rheap cmp (a, x, cut n l)"
    using assms(2) pheap_cut[of cmp l n] items_cut[of n l] by auto
  show ?thesis
  proof (cases "collapse_tree cmp ln")
    case None
    then show ?thesis using rc Some u by (simp add: del_inner.simps)
  next
    case (Some c)
    have "oheap cmp (collapse_tree cmp ln)"
      using ru assms(1) by (intro oheap_collapse_tree) auto
    then have "rheap cmp c" using Some by simp
    then show ?thesis using rc Some \<open>sub_at n l = Some u\<close> u assms(1)
      by (simp add: del_inner.simps rheap_link)
  qed
qed

lemma oheap_delete_abs:
  assumes "swo cmp" "oheap cmp ro"
  shows "oheap cmp (delete_abs cmp n ro)"
proof (cases ro)
  case None
  then show ?thesis by (simp add: delete_abs_def)
next
  case (Some r)
  obtain a x l where r: "r = (a, x, l)" by (cases r)
  show ?thesis
  proof (cases "n = a")
    case True
    then show ?thesis using assms Some r oheap_collapse_tree[of cmp l]
      by (simp add: delete_abs_def)
  next
    case False
    then show ?thesis using assms Some r rheap_del_inner[of cmp a x l n]
      by (simp add: delete_abs_def)
  qed
qed

lemma rheap_add_abs:
  assumes "swo cmp" "oheap cmp ro"
  shows "rheap cmp (add_abs cmp n x ro)"
proof (cases ro)
  case None
  then show ?thesis by (simp add: add_abs_def)
next
  case (Some r)
  have "rheap cmp (n, x, Tip)" by simp
  then show ?thesis using assms Some by (simp add: add_abs_def rheap_link del: rheap.simps)
qed

lemma sub_at_relabel:
  "dist t \<Longrightarrow> sub_at n t = Some (m, y, ln) \<Longrightarrow> sub_at n (relabel n v t) = Some (n, v, ln)"
proof (induction t)
  case Tip
  then show ?case by simp
next
  case (PNode l a x r)
  show ?case
  proof (cases "a = n")
    case True
    then show ?thesis using PNode.prems by auto
  next
    case False
    show ?thesis
    proof (cases "sub_at n l")
      case None
      then have "n \<notin> addrs l" by (simp add: sub_at_None)
      then have "sub_at n (relabel n v l) = None" using None by simp
      then show ?thesis using PNode False None by auto
    next
      case (Some u)
      then show ?thesis using PNode False by auto
    qed
  qed
qed

lemma cut_relabel: "dist t \<Longrightarrow> cut n (relabel n v t) = cut n t"
  by (induction t) auto

lemma oheap_decrease_abs:
  assumes "swo cmp" "oheap cmp ro" "n \<in> oaddrs ro" "label_of n ro = Some y" "\<not> cmp y v"
    "case ro of None \<Rightarrow> True | Some r \<Rightarrow> rdist r"
  shows "oheap cmp (decrease_abs cmp n (map_option (rrelabel n v) ro))"
proof -
  obtain a x l where ro: "ro = Some (a, x, l)" using assms(3) by (cases ro) auto
  from assms(2,6) have rh: "pheap cmp l" "\<forall>z\<in>#items l. \<not> cmp z x"
    and d: "a \<notin> addrs l" "dist l" by (auto simp: ro)
  show ?thesis
  proof (cases "n = a")
    case True
    then have "y = x" using assms(4) by (simp add: label_of_def ro)
    then have "\<forall>z\<in>#items l. \<not> cmp z v"
      using rh(2) assms(5) swo_negtrans[OF assms(1), of _ x v] by blast
    then show ?thesis using True rh(1) d by (simp add: decrease_abs_def ro)
  next
    case False
    then have nl: "n \<in> addrs l" using assms(3) by (simp add: ro)
    then obtain m y' ln where sa: "sub_at n l = Some (m, y', ln)"
      using sub_at_None[of n l] by (cases "sub_at n l") auto
    then have yy: "y' = y" using assms(4) False by (simp add: label_of_def ro)
    have sr: "sub_at n (relabel n v l) = Some (n, v, ln)"
      using sub_at_relabel[OF d(2) sa] .
    have cr: "cut n (relabel n v l) = cut n l" using d(2) by (rule cut_relabel)
    have "rheap cmp (m, y', ln)" using rheap_sub_at[OF rh(1) sa] .
    then have rn: "rheap cmp (n, v, ln)"
      using yy assms(5) swo_negtrans[OF assms(1), of _ y v] by auto
    have rc: "rheap cmp (a, x, cut n l)"
      using rh pheap_cut[of cmp l n] items_cut[of n l] by auto
    have "rheap cmp (link cmp (a, x, cut n l) (n, v, ln))"
      using assms(1) rc rn by (rule rheap_link)
    then show ?thesis using False sr cr
      by (simp add: decrease_abs_def ro dec_inner.simps)
  qed
qed

section \<open>The invariants, read off the memory\<close>

lemma repr_child_in:
  "repr s pv c t \<Longrightarrow> a \<in> addrs t \<Longrightarrow> child (s a) = Some b \<Longrightarrow> b \<in> addrs t"
proof (induction t arbitrary: pv c)
  case (PNode l a' x r)
  then show ?case using repr_root_in[of s "Some a'" b l] by auto
qed simp

lemma repr_next_in:
  "repr s pv c t \<Longrightarrow> a \<in> addrs t \<Longrightarrow> nxt (s a) = Some b \<Longrightarrow> b \<in> addrs t"
proof (induction t arbitrary: pv c)
  case (PNode l a' x r)
  then show ?case using repr_root_in[of s "Some a'" b r] by auto
qed simp

lemma reach_sub_addrs:
  assumes "repr s pv c t" "a \<in> reach s c"
  shows "a \<in> addrs t"
  using assms(2)
proof (induction rule: reach.induct)
  case (start a)
  then show ?case using assms(1) repr_root_in by fastforce
next
  case (down a b)
  then show ?case using repr_child_in[OF assms(1)] by blast
next
  case (along a b)
  then show ?case using repr_next_in[OF assms(1)] by blast
qed

lemma reach_via_child:
  "m \<in> reach s (child (s a)) \<Longrightarrow> a \<in> reach s c \<Longrightarrow> m \<in> reach s c"
  by (induction rule: reach.induct) (auto intro: reach.intros)

lemma reach_via_next:
  "m \<in> reach s (nxt (s a)) \<Longrightarrow> a \<in> reach s c \<Longrightarrow> m \<in> reach s c"
  by (induction rule: reach.induct) (auto intro: reach.intros)

lemma addrs_sub_reach:
  "repr s pv c t \<Longrightarrow> a \<in> addrs t \<Longrightarrow> a \<in> reach s c"
proof (induction t arbitrary: pv c)
  case Tip
  then show ?case by simp
next
  case (PNode l a' x r)
  have ra: "a' \<in> reach s c" using PNode.prems by (auto intro: reach.start)
  from PNode.prems consider "a = a'" | "a \<in> addrs l" | "a \<in> addrs r" by auto
  then show ?case
  proof cases
    case 1
    then show ?thesis using ra by simp
  next
    case 2
    then have "a \<in> reach s (child (s a'))" using PNode by auto
    then show ?thesis using ra by (rule reach_via_child)
  next
    case 3
    then have "a \<in> reach s (nxt (s a'))" using PNode by auto
    then show ?thesis using ra by (rule reach_via_next)
  qed
qed

lemma reach_repr: "repr s pv c t \<Longrightarrow> reach s c = addrs t"
  using reach_sub_addrs addrs_sub_reach by blast

lemma reach_None [simp]: "reach s None = {}"
  using reach_repr[of s None None Tip] by simp

lemma tree_ok_reach: "tree_ok s root ro \<Longrightarrow> reach s root = oaddrs ro"
proof (cases ro)
  case None
  assume "tree_ok s root ro"
  then show ?thesis using None by simp
next
  case (Some r)
  assume t: "tree_ok s root ro"
  obtain a x l where r: "r = (a, x, l)" by (cases r)
  from t have "repr s None (Some a) (PNode l a x Tip)" "root = Some a"
    by (auto simp: Some r isolated_def)
  then show ?thesis using reach_repr[of s None "Some a" "PNode l a x Tip"] by (simp add: Some r)
qed

lemma heap_shape_reach: "heap_shape h ro \<Longrightarrow> reach (mem h) (h_root h) = oaddrs ro"
  by (simp add: heap_shape_def tree_ok_reach)

lemma repr_item_in:
  "repr s pv c t \<Longrightarrow> d \<in> addrs t \<Longrightarrow> \<exists>z. item (s d) = Some z \<and> z \<in># items t"
proof (induction t arbitrary: pv c)
  case Tip
  then show ?case by simp
next
  case (PNode l a x r)
  from PNode.prems consider "d = a" | "d \<in> addrs l" | "d \<in> addrs r" by auto
  then show ?case
  proof cases
    case 1
    then show ?thesis using PNode.prems by simp
  next
    case 2
    then obtain z where "item (s d) = Some z" "z \<in># items l"
      using PNode.IH(1)[of "Some a" "child (s a)"] PNode.prems by auto
    then show ?thesis by simp
  next
    case 3
    then obtain z where "item (s d) = Some z" "z \<in># items r"
      using PNode.IH(2)[of "Some a" "nxt (s a)"] PNode.prems by auto
    then show ?thesis by simp
  qed
qed

lemma finite_addrs [simp]: "finite (addrs t)"
  by (induction t) auto

lemma card_addrs: "dist t \<Longrightarrow> card (addrs t) = size (items t)"
proof (induction t)
  case (PNode l a x r)
  have fin: "finite (addrs l)" "finite (addrs r)"
    by simp_all
  have "card (addrs l \<union> addrs r) = card (addrs l) + card (addrs r)"
    using PNode.prems fin by (intro card_Un_disjoint) auto
  moreover have "a \<notin> addrs l \<union> addrs r" using PNode.prems by auto
  moreover have "finite (addrs l \<union> addrs r)" using fin by simp
  ultimately show ?case using PNode by simp
qed simp

lemma sub_at_rheap_tree:
  assumes "rheap cmp (a, x, l)" "sub_at n (PNode l a x Tip) = Some u"
  shows "rheap cmp u"
  using assms rheap_sub_at[of cmp l n u] by (auto split: if_splits option.splits)

lemma shape_facts:
  assumes "heap_shape h ro" "oheap (cmp_of lessThanFunc) ro" "swo (cmp_of lessThanFunc)"
  shows "heap_ordered lessThanFunc h \<and> root_is_min lessThanFunc h \<and> size_accurate h \<and>
         root_detached h"
proof (cases ro)
  case None
  then show ?thesis using assms
    by (auto simp: heap_shape_def heap_ordered_def root_is_min_def size_accurate_def
          root_detached_def)
next
  case (Some r)
  obtain a x l where r: "r = (a, x, l)" by (cases r)
  let ?s = "mem h" and ?t = "PNode l a x Tip"
  from assms(1) have root: "h_root h = Some a" and rt: "repr ?s None (Some a) ?t"
    and dt: "dist ?t" and sz: "h_size h = int (size (oitems ro))"
    and iso: "isolated ?s a"
    by (auto simp: heap_shape_def Some r isolated_def)
  have rch: "reach ?s (h_root h) = addrs ?t" using reach_repr[OF rt] root by simp
  have ord: "\<not> lessThanFunc (item (?s d)) (item (?s n))"
    if n: "n \<in> addrs ?t" and d: "d \<in> reach ?s (child (?s n))" for n d
  proof -
    obtain u where u: "sub_at n ?t = Some u"
      using n sub_at_None[of n ?t] by (cases "sub_at n ?t") auto
    obtain m y ln where ut: "u = (m, y, ln)" by (cases u)
    have mn: "m = n" using sub_at_fst[OF u] ut by simp
    have tn: "tree_at ?s (n, y, ln)" using sub_at_tree[OF rt u] ut mn by simp
    then have "reach ?s (child (?s n)) = addrs ln"
      using reach_repr[of ?s "Some n" "child (?s n)" ln] by simp
    then have "d \<in> addrs ln" using d by simp
    then obtain z where z: "item (?s d) = Some z" "z \<in># items ln"
      using repr_item_in[of ?s "Some n" "child (?s n)" ln d] tn by auto
    have "rheap (cmp_of lessThanFunc) u"
      using assms(2) u sub_at_rheap_tree[of "cmp_of lessThanFunc" a x l n u] by (simp add: Some r)
    then have "\<not> cmp_of lessThanFunc z y" using z(2) ut by simp
    then show ?thesis using z(1) tn by (simp add: cmp_of_def)
  qed
  have ho: "heap_ordered lessThanFunc h"
    unfolding heap_ordered_def rch using ord by blast
  have "\<not> lessThanFunc (item (?s d)) (item (?s a))" if d: "d \<in> addrs ?t" for d
  proof (cases "d = a")
    case True
    have "item (?s a) = Some x" using rt by simp
    then show ?thesis using True swo_asym[OF assms(3), of x x] by (auto simp: cmp_of_def)
  next
    case False
    then have "d \<in> addrs l" using d by simp
    moreover have "reach ?s (child (?s a)) = addrs l"
      using reach_repr[of ?s "Some a" "child (?s a)" l] rt by simp
    ultimately show ?thesis using ord[of a d] by simp
  qed
  then have rm: "root_is_min lessThanFunc h"
    unfolding root_is_min_def rch using root by auto
  have "card (addrs ?t) = size (items ?t)" using dt by (rule card_addrs)
  then have sa: "size_accurate h"
    unfolding size_accurate_def rch using sz by (simp add: Some r)
  have "root_detached h" using iso root by (simp add: root_detached_def isolated_def)
  then show ?thesis using ho rm sa by simp
qed

section \<open>Iteration and repeated extraction\<close>

lemma collapse_tree_single [simp]: "collapse_tree cmp (PNode l a x Tip) = Some (a, x, l)"
  by (simp add: collapse_tree_def collapse_spec_def)

lemma collapse_tree_parts:
  assumes "dist t" "collapse_tree cmp t = Some r"
  shows "rdist r \<and> raddrs r = addrs t \<and> ritems r = items t"
proof -
  have "ldist (sibs t)" using assms(1) by (induction t) auto
  have 1: "ldist (pass1_acc cmp t [])" using ldist_pass1_acc[OF assms(1), of "[]" cmp] by simp
  have 2: "laddrs (pass1_acc cmp t []) = addrs t" using laddrs_pass1_acc[of cmp t "[]"] by simp
  have "t \<noteq> Tip" using assms(2) by auto
  then obtain u us where us: "pass1_acc cmp t [] = u # us"
    using pass1_acc_nonempty[of t cmp "[]"] by (cases "pass1_acc cmp t []") auto
  have r: "r = foldl (link cmp) u us" using collapse_tree_eq[OF us] assms(2) by simp
  have "rdist r" unfolding r using 1 us by (intro rdist_foldl_link) auto
  moreover have "raddrs r = addrs t" unfolding r using 2 us by simp
  moreover have "ritems r = items t" using oitems_collapse_tree[of cmp t] assms(2) by simp
  ultimately show ?thesis by simp
qed

lemma path_fuel_parts:
  "rdist r \<Longrightarrow> size (ritems r) \<le> k \<Longrightarrow>
     rdist (path_fuel k cmp r) \<and> raddrs (path_fuel k cmp r) = raddrs r \<and>
     ritems (path_fuel k cmp r) = ritems r \<and> fst (path_fuel k cmp r) = fst r \<and>
     fst (snd (path_fuel k cmp r)) = fst (snd r)"
proof (induction k cmp r rule: path_fuel.induct)
  case (1 cmp r)
  then show ?case by (cases r) auto
next
  case (2 k cmp a x l)
  show ?case
  proof (cases "collapse_tree cmp l")
    case None
    then show ?thesis using 2 by simp
  next
    case (Some r)
    from 2(2) have dl: "dist l" "a \<notin> addrs l" by auto
    from collapse_tree_parts[OF dl(1) Some] have p:
      "rdist r" "raddrs r = addrs l" "ritems r = items l" by auto
    have "size (ritems r) \<le> k" using p(3) 2(3) by simp
    from 2(1)[OF Some p(1) this] have ih:
      "rdist (path_fuel k cmp r)" "raddrs (path_fuel k cmp r) = raddrs r"
      "ritems (path_fuel k cmp r) = ritems r" by auto
    obtain b y lb where pf: "path_fuel k cmp r = (b, y, lb)" by (cases "path_fuel k cmp r")
    show ?thesis using ih p dl Some by (auto simp: pf)
  qed
qed

declare iterate.simps [simp del]

lemma iterate_leaf:
  assumes "tree_at s (a, x, Tip)"
  shows "iterate lessThanFunc nodes (Suc k) (Some a) out s
           = Some (Inr (out @ [yield_of nodes (a, x)], s))"
  using assms by (simp add: iterate.simps(2) yield_of_def)

text \<open>
  One level of the generator over a node with children: the list of the children is
  collapsed and hung below the node, and the generator of the next level starts on the
  root of the collapsed tree.
\<close>

lemma iterate_step:
  assumes "tree_at s (a, x, l)" "rdist (a, x, l)" "l \<noteq> Tip"
  shows "\<exists>b z lb s3. collapse_tree (cmp_of lessThanFunc) l = Some (b, z, lb) \<and>
          iterate lessThanFunc nodes (Suc k) (Some a) out s
            = iterate lessThanFunc nodes k (Some b) (out @ [yield_of nodes (a, x)]) s3 \<and>
          tree_at s3 (b, z, lb) \<and> prev (s3 b) = Some a \<and> nxt (s3 b) = None \<and>
          item (s3 a) = Some x \<and> child (s3 a) = Some b \<and>
          prev (s3 a) = prev (s a) \<and> nxt (s3 a) = nxt (s a) \<and>
          (\<forall>m. m \<notin> raddrs (a, x, l) \<longrightarrow> s3 m = s m)"
proof -
  let ?cmp = "cmp_of lessThanFunc"
  let ?out' = "out @ [yield_of nodes (a, x)]"
  from assms have ia: "item (s a) = Some x" and rl: "repr s (Some a) (child (s a)) l"
    and al: "a \<notin> addrs l" and dl: "dist l" by auto
  have yo: "(if nodes then Inl a else Inr (item (s a))) = yield_of nodes (a, x)"
    by (simp add: yield_of_def ia)
  obtain l1 c y r1 where PNode: "l = PNode l1 c y r1" using assms(3) by (cases l) auto
  then have ca: "child (s a) = Some c" using rl by simp
  obtain rc where rc: "collapse_tree ?cmp l = Some rc"
    using PNode by (cases "collapse_tree ?cmp l") auto
  obtain b z lb where rcb: "rc = (b, z, lb)" by (cases rc)
  from collapse_tree_parts[OF dl rc] have p:
    "rdist rc" "raddrs rc = addrs l" "ritems rc = items l" by auto
  define body where "body = (if nxt (s c) \<noteq> None then
           (case collapse lessThanFunc (Some c) s of
              None \<Rightarrow> None
            | Some (Inl e) \<Rightarrow> Some (Inl e)
            | Some (Inr (r, s1)) \<Rightarrow>
               (let s2 = set_child a r s1 in
                case child (s2 a) of
                  None \<Rightarrow> Some (Inl TypeError)
                | Some c' \<Rightarrow>
                   (let s3 = set_prev c' (Some a) s2 in
                    iterate lessThanFunc nodes k (child (s3 a)) ?out' s3)))
         else iterate lessThanFunc nodes k (child (s a)) ?out' s)"
  have unf: "iterate lessThanFunc nodes (Suc k) (Some a) out s = body"
    unfolding body_def by (simp add: iterate.simps(2) yo ca Let_def)
  have "\<exists>s3. body
         = iterate lessThanFunc nodes k (Some b) ?out' s3 \<and>
       tree_at s3 rc \<and> prev (s3 b) = Some a \<and> nxt (s3 b) = None \<and>
       item (s3 a) = Some x \<and> child (s3 a) = Some b \<and>
       prev (s3 a) = prev (s a) \<and> nxt (s3 a) = nxt (s a) \<and>
       (\<forall>m. m \<notin> raddrs (a, x, l) \<longrightarrow> s3 m = s m)"
  proof (cases "nxt (s c) = None")
    case True
    then have r1: "r1 = Tip" using rl PNode by simp
    then have "rc = (c, y, l1)" using rc PNode by simp
    then show ?thesis using True rl PNode r1 ca ia rcb unfolding body_def
      by (intro exI[of _ s]) auto
  next
    case False
    have ch: "chain s (Some c) l" using rl ca by (auto intro: repr_chain)
    from collapse_ok[OF ch dl, of lessThanFunc] rc obtain s1 where
      c1: "collapse lessThanFunc (Some c) s = Some (Inr (Some (fst rc), s1))"
          "tree_at s1 rc" "isolated s1 (fst rc)"
          "\<forall>m. m \<notin> addrs l \<longrightarrow> s1 m = s m"
      by auto
    let ?s2 = "set_child a (Some b) s1"
    let ?s3 = "set_prev b (Some a) ?s2"
    have ab: "a \<noteq> b" "a \<notin> addrs lb" "b \<notin> addrs lb" using p(1,2) al rcb by auto
    have s1a: "s1 a = s a" using c1(4) al by simp
    have t3: "tree_at ?s3 rc"
      using c1(2) ab unfolding rcb by (auto simp: set_child_def set_prev_def)
    have "(case collapse lessThanFunc (Some c) s of
              None \<Rightarrow> None
            | Some (Inl e) \<Rightarrow> Some (Inl e)
            | Some (Inr (r, s1)) \<Rightarrow>
               (let s2 = set_child a r s1 in
                case child (s2 a) of
                  None \<Rightarrow> Some (Inl TypeError)
                | Some c' \<Rightarrow>
                   (let s3 = set_prev c' (Some a) s2 in
                    iterate lessThanFunc nodes k (child (s3 a)) ?out' s3)))
          = iterate lessThanFunc nodes k (Some b) ?out' ?s3"
      using ab(1) by (simp add: c1(1) rcb set_child_def set_prev_def Let_def)
    moreover have "prev (?s3 b) = Some a \<and> nxt (?s3 b) = None"
      using c1(3) ab(1) by (simp add: rcb isolated_def set_child_def set_prev_def)
    moreover have "item (?s3 a) = Some x \<and> child (?s3 a) = Some b \<and>
        prev (?s3 a) = prev (s a) \<and> nxt (?s3 a) = nxt (s a)"
      using s1a ia ab(1) by (simp add: set_child_def set_prev_def)
    moreover have "\<forall>m. m \<notin> raddrs (a, x, l) \<longrightarrow> ?s3 m = s m"
      using c1(4) p(2) rcb by (auto simp: set_child_def set_prev_def)
    ultimately show ?thesis using False t3 unfolding body_def
      by (intro exI[of _ ?s3]) simp
  qed
  then show ?thesis unfolding unf rcb using rc rcb by blast
qed

text \<open>
  With room on the stack for every node of the tree, the generator runs to its end: it
  yields what repeated extraction of the minimum yields and leaves the tree of the
  collapsed lists.
\<close>

lemma iterate_ok:
  assumes "tree_at s (a, x, l)" "rdist (a, x, l)" "size (ritems (a, x, l)) \<le> k"
  shows "\<exists>s'. iterate lessThanFunc nodes k (Some a) out s
             = Some (Inr (out @ map (yield_of nodes) (drain_fuel k (cmp_of lessThanFunc) (a, x, l)), s')) \<and>
          tree_at s' (path_fuel k (cmp_of lessThanFunc) (a, x, l)) \<and>
          prev (s' a) = prev (s a) \<and> nxt (s' a) = nxt (s a) \<and>
          (\<forall>m. m \<notin> raddrs (a, x, l) \<longrightarrow> s' m = s m)"
  using assms
proof (induction k arbitrary: a x l s out)
  case 0
  then show ?case by simp
next
  case (Suc k)
  let ?cmp = "cmp_of lessThanFunc"
  let ?out' = "out @ [yield_of nodes (a, x)]"
  from Suc.prems have al: "a \<notin> addrs l" and dl: "dist l" by auto
  show ?case
  proof (cases "l = Tip")
    case True
    then show ?thesis using iterate_leaf[of s a x lessThanFunc nodes k out] Suc.prems by simp
  next
    case False
    from iterate_step[OF Suc.prems(1,2) False, of lessThanFunc nodes k out]
    obtain b z lb s3 where
      rc: "collapse_tree ?cmp l = Some (b, z, lb)"
      and st: "iterate lessThanFunc nodes (Suc k) (Some a) out s
                 = iterate lessThanFunc nodes k (Some b) ?out' s3"
      and t3: "tree_at s3 (b, z, lb)" and b3: "prev (s3 b) = Some a" "nxt (s3 b) = None"
      and a3: "item (s3 a) = Some x" "child (s3 a) = Some b"
              "prev (s3 a) = prev (s a)" "nxt (s3 a) = nxt (s a)"
      and f3: "\<forall>m. m \<notin> raddrs (a, x, l) \<longrightarrow> s3 m = s m"
      by blast
    from collapse_tree_parts[OF dl rc] have p:
      "rdist (b, z, lb)" "raddrs (b, z, lb) = addrs l" "ritems (b, z, lb) = items l" by auto
    have szk: "size (ritems (b, z, lb)) \<le> k" using p(3) Suc.prems(3) by simp
    from Suc.IH[OF t3 p(1) szk, of ?out'] obtain s' where
      ih: "iterate lessThanFunc nodes k (Some b) ?out' s3
             = Some (Inr (?out' @ map (yield_of nodes) (drain_fuel k ?cmp (b, z, lb)), s'))"
          "tree_at s' (path_fuel k ?cmp (b, z, lb))"
          "prev (s' b) = prev (s3 b)" "nxt (s' b) = nxt (s3 b)"
          "\<forall>m. m \<notin> raddrs (b, z, lb) \<longrightarrow> s' m = s3 m"
      by blast
    have it: "iterate lessThanFunc nodes (Suc k) (Some a) out s
             = Some (Inr (out @ map (yield_of nodes) (drain_fuel (Suc k) ?cmp (a, x, l)), s'))"
      unfolding st ih(1) by (simp add: rc)
    obtain b' y' lb' where pf: "path_fuel k ?cmp (b, z, lb) = (b', y', lb')"
      by (cases "path_fuel k ?cmp (b, z, lb)")
    from path_fuel_parts[OF p(1) szk, of ?cmp] pf
    have bb: "b' = b" by simp
    have anb: "a \<notin> raddrs (b, z, lb)" using p(2) al by auto
    then have sa: "s' a = s3 a" using ih(5) by blast
    have "tree_at s' (path_fuel (Suc k) ?cmp (a, x, l))"
      using ih(2,3,4) b3 a3 sa unfolding pf bb by (simp add: rc pf bb)
    moreover have "prev (s' a) = prev (s a) \<and> nxt (s' a) = nxt (s a)"
      using sa a3 by simp
    moreover have "\<forall>m. m \<notin> raddrs (a, x, l) \<longrightarrow> s' m = s m"
      using ih(5) f3 p(2) by auto
    ultimately show ?thesis using it by blast
  qed
qed

text \<open>
  With more nodes in the tree than the stack has room for, the generator throws: the
  generator for the node after the last one that fits finds no room.
\<close>

lemma iterate_overflow:
  assumes "tree_at s (a, x, l)" "rdist (a, x, l)" "k < size (ritems (a, x, l))"
  shows "iterate lessThanFunc nodes k (Some a) out s = Some (Inl RangeError)"
  using assms
proof (induction k arbitrary: a x l s out)
  case 0
  then show ?case by (simp add: iterate.simps(1))
next
  case (Suc k)
  let ?cmp = "cmp_of lessThanFunc"
  from Suc.prems have dl: "dist l" by auto
  have nt: "l \<noteq> Tip" using Suc.prems(3) by auto
  from iterate_step[OF Suc.prems(1,2) nt, of lessThanFunc nodes k out]
  obtain b z lb s3 where
    rc: "collapse_tree ?cmp l = Some (b, z, lb)"
    and st: "iterate lessThanFunc nodes (Suc k) (Some a) out s
               = iterate lessThanFunc nodes k (Some b) (out @ [yield_of nodes (a, x)]) s3"
    and t3: "tree_at s3 (b, z, lb)"
    by blast
  from collapse_tree_parts[OF dl rc] have p:
    "rdist (b, z, lb)" "ritems (b, z, lb) = items l" by auto
  have "k < size (ritems (b, z, lb))" using p(2) Suc.prems(3) by simp
  from Suc.IH[OF t3 p(1) this] show ?case unfolding st .
qed

lemma ritems_path_fuel [simp]: "ritems (path_fuel k cmp r) = ritems r"
proof (induction k cmp r rule: path_fuel.induct)
  case (1 cmp r)
  then show ?case by simp
next
  case (2 k cmp a x l)
  show ?case
  proof (cases "collapse_tree cmp l")
    case None
    then show ?thesis by simp
  next
    case (Some r)
    obtain b y lb where pf: "path_fuel k cmp r = (b, y, lb)" by (cases "path_fuel k cmp r")
    have "ritems r = items l" using oitems_collapse_tree[of cmp l] Some by simp
    then show ?thesis using 2[OF Some] Some pf by simp
  qed
qed

lemma rheap_path_fuel:
  "swo cmp \<Longrightarrow> rheap cmp r \<Longrightarrow> rheap cmp (path_fuel k cmp r)"
proof (induction k cmp r rule: path_fuel.induct)
  case (1 cmp r)
  then show ?case by simp
next
  case (2 k cmp a x l)
  show ?case
  proof (cases "collapse_tree cmp l")
    case None
    then show ?thesis by simp
  next
    case (Some r)
    obtain b y lb where pf: "path_fuel k cmp r = (b, y, lb)" by (cases "path_fuel k cmp r")
    have "oheap cmp (collapse_tree cmp l)" using 2(2,3) by (intro oheap_collapse_tree) auto
    then have "rheap cmp r" using Some by simp
    then have ih: "rheap cmp (b, y, lb)" using 2(1)[OF Some 2(2)] pf by simp
    have "ritems (b, y, lb) = items l"
      using ritems_path_fuel[of k cmp r] oitems_collapse_tree[of cmp l] Some pf by simp
    then have "\<forall>z\<in>#items (PNode lb b y Tip). \<not> cmp z x" using 2(3) by simp
    then show ?thesis using ih Some pf by simp
  qed
qed

lemma drain_Some:
  "drain cmp (Some (a, x, l)) = (a, x) # drain cmp (collapse_tree cmp l)"
proof (cases "collapse_tree cmp l")
  case None
  then show ?thesis by (simp add: drain_def)
next
  case (Some r)
  have "ritems r = items l" using oitems_collapse_tree[of cmp l] Some by simp
  then show ?thesis using Some by (simp add: drain_def)
qed

lemma drain_None [simp]: "drain cmp None = []"
  by (simp add: drain_def)

lemma drain_props:
  assumes "swo cmp" "oheap cmp ro" "size (oitems ro) = k"
  shows "mset (map snd (drain cmp ro)) = oitems ro \<and>
         sorted_wrt (\<lambda>x y. \<not> cmp y x) (map snd (drain cmp ro)) \<and>
         length (drain cmp ro) = k"
  using assms(2,3)
proof (induction k arbitrary: ro)
  case 0
  then show ?case by (cases ro) (auto simp: drain_def)
next
  case (Suc k)
  then obtain a x l where ro: "ro = Some (a, x, l)" by (cases ro) auto
  let ?c = "collapse_tree cmp l"
  have oh: "oheap cmp ?c" using Suc.prems(1) assms(1) by (intro oheap_collapse_tree) (auto simp: ro)
  have sz: "size (oitems ?c) = k" using Suc.prems(2) by (simp add: ro)
  from Suc.IH[OF oh sz] have ih:
    "mset (map snd (drain cmp ?c)) = items l"
    "sorted_wrt (\<lambda>x y. \<not> cmp y x) (map snd (drain cmp ?c))"
    "length (drain cmp ?c) = k" by auto
  have "\<forall>y\<in>set (map snd (drain cmp ?c)). \<not> cmp y x"
    using Suc.prems(1) ih(1) by (metis oheap_simps(2) rheap.simps ro set_mset_mset)
  then show ?case using ih by (simp add: ro drain_Some)
qed

lemma drain_path_fuel:
  "size (ritems r) \<le> k \<Longrightarrow> drain cmp (Some (path_fuel k cmp r)) = drain cmp (Some r)"
proof (induction k cmp r rule: path_fuel.induct)
  case (1 cmp r)
  then show ?case by simp
next
  case (2 k cmp a x l)
  show ?case
  proof (cases "collapse_tree cmp l")
    case None
    then show ?thesis by (simp add: drain_Some)
  next
    case (Some r)
    obtain b y lb where pf: "path_fuel k cmp r = (b, y, lb)" by (cases "path_fuel k cmp r")
    have "ritems r = items l" using oitems_collapse_tree[of cmp l] Some by simp
    then have "size (ritems r) \<le> k" using 2(2) by simp
    from 2(1)[OF Some this] have "drain cmp (Some (b, y, lb)) = drain cmp (Some r)"
      unfolding pf .
    then show ?thesis using Some pf by (simp add: drain_Some)
  qed
qed

lemma deleteMin_shape:
  assumes "heap_shape h (Some (a, x, l))"
  shows "\<exists>h'. deleteMin lessThanFunc h = Some (Inr (Some x, h')) \<and>
           heap_shape h' (collapse_tree (cmp_of lessThanFunc) l) \<and>
           cleared (mem h' a) \<and>
           (\<forall>m. m \<notin> raddrs (a, x, l) \<longrightarrow> mem h' m = mem h m) \<and>
           fresh h' = fresh h \<and>
           h_objectPool h' = map_option (pool_release a) (h_objectPool h)"
proof -
  from assms have root: "h_root h = Some a" and ia: "item (mem h a) = Some x"
    by (auto simp: heap_shape_def)
  from delete_shape[OF assms, of a lessThanFunc] obtain h' where
    d: "delete lessThanFunc a h = Some (Inr h')"
       "heap_shape h' (delete_abs (cmp_of lessThanFunc) a (Some (a, x, l)))"
       "cleared (mem h' a)" "\<forall>m. m \<notin> oaddrs (Some (a, x, l)) \<longrightarrow> mem h' m = mem h m"
       "fresh h' = fresh h" "h_objectPool h' = map_option (pool_release a) (h_objectPool h)"
    by auto
  have "deleteMin lessThanFunc h = Some (Inr (Some x, h'))"
    using root ia d(1) by (simp add: deleteMin_def)
  then show ?thesis using d by (auto simp: delete_abs_def)
qed

lemma deleteMin_times_shape:
  assumes "heap_shape h ro" "size (oitems ro) = k"
  shows "\<exists>h'. deleteMin_times lessThanFunc k h
             = Some (Inr (map (\<lambda>p. Some (snd p)) (drain (cmp_of lessThanFunc) ro), h')) \<and>
           heap_shape h' None"
  using assms
proof (induction k arbitrary: h ro)
  case 0
  then have "ro = None" by (cases ro) auto
  then show ?case using 0 by simp
next
  case (Suc k)
  then obtain a x l where ro: "ro = Some (a, x, l)" by (cases ro) auto
  let ?c = "collapse_tree (cmp_of lessThanFunc) l"
  from deleteMin_shape[OF Suc.prems(1)[unfolded ro], of lessThanFunc] obtain h1 where
    d: "deleteMin lessThanFunc h = Some (Inr (Some x, h1))" "heap_shape h1 ?c"
    by auto
  have sz: "size (oitems ?c) = k" using Suc.prems(2) by (simp add: ro)
  from Suc.IH[OF d(2) sz] obtain h' where
    r: "deleteMin_times lessThanFunc k h1
          = Some (Inr (map (\<lambda>p. Some (snd p)) (drain (cmp_of lessThanFunc) ?c), h'))"
       "heap_shape h' None" by auto
  show ?case using d(1) r by (simp add: ro drain_Some)
qed

lemma add_all_shape:
  assumes "heap_shape h ro"
  shows "\<exists>ro'. heap_shape (add_all lessThanFunc xs h) ro' \<and> oitems ro' = oitems ro + mset xs \<and>
           (swo (cmp_of lessThanFunc) \<longrightarrow> oheap (cmp_of lessThanFunc) ro
              \<longrightarrow> oheap (cmp_of lessThanFunc) ro')"
  using assms
proof (induction xs arbitrary: h ro)
  case Nil
  then show ?case by auto
next
  case (Cons x xs)
  from add_shape[OF Cons.prems, of lessThanFunc x] obtain n h1 where
    a: "add lessThanFunc x h = (n, h1)"
       "heap_shape h1 (Some (add_abs (cmp_of lessThanFunc) n x ro))"
    by auto
  from Cons.IH[OF a(2)] obtain ro' where
    r: "heap_shape (add_all lessThanFunc xs h1) ro'"
       "oitems ro' = oitems (Some (add_abs (cmp_of lessThanFunc) n x ro)) + mset xs"
       "swo (cmp_of lessThanFunc) \<longrightarrow> oheap (cmp_of lessThanFunc) (Some (add_abs (cmp_of lessThanFunc) n x ro))
              \<longrightarrow> oheap (cmp_of lessThanFunc) ro'"
    by blast
  have "swo (cmp_of lessThanFunc) \<longrightarrow> oheap (cmp_of lessThanFunc) ro
              \<longrightarrow> oheap (cmp_of lessThanFunc) ro'"
    using r(3) rheap_add_abs[of "cmp_of lessThanFunc" ro n x] by auto
  then show ?case using a(1) r(1,2) by auto
qed

lemma items_of_yields [simp]:
  "items_of (map (yield_of False) ps) = map (\<lambda>p. Some (snd p)) ps"
  by (induction ps) (auto simp: items_of_def yield_of_def)

lemma drain_fuel_enough:
  "size (ritems r) \<le> k \<Longrightarrow> drain_fuel k cmp r = drain cmp (Some r)"
proof (induction k cmp r rule: drain_fuel.induct)
  case (1 cmp r)
  then show ?case by (cases r) auto
next
  case (2 k cmp a x l)
  show ?case
  proof (cases "collapse_tree cmp l")
    case None
    then show ?thesis by (simp add: drain_Some)
  next
    case (Some r)
    have "ritems r = items l" using oitems_collapse_tree[of cmp l] Some by simp
    then have "size (ritems r) \<le> k" using 2(2) by simp
    from 2(1)[OF Some this] show ?thesis using Some by (simp add: drain_Some)
  qed
qed

text \<open>
  The default iteration of a heap on a stack with room for all its nodes, and on a stack
  without.
\<close>

lemma iterator_shape:
  assumes "heap_shape h ro" "size (oitems ro) \<le> stack" "0 < stack"
  shows "\<exists>h'. iterator lessThanFunc stack h
             = Some (Inr (map (\<lambda>p. Some (snd p)) (drain (cmp_of lessThanFunc) ro), h')) \<and>
           heap_shape h' (map_option (path_fuel stack (cmp_of lessThanFunc)) ro) \<and>
           h' = h\<lparr>mem := mem h'\<rparr> \<and>
           (\<forall>m. m \<notin> oaddrs ro \<longrightarrow> mem h' m = mem h m)"
proof (cases ro)
  case None
  then have "h_root h = None" using assms by (simp add: heap_shape_def)
  moreover obtain k where "stack = Suc k" using assms(3) by (cases stack) auto
  ultimately have "iterator lessThanFunc stack h = Some (Inr ([], h\<lparr>mem := mem h\<rparr>))"
    by (simp add: iterator_def iterate.simps(2) items_of_def)
  then show ?thesis using None assms by auto
next
  case (Some r)
  obtain a x l where r: "r = (a, x, l)" by (cases r)
  let ?cmp = "cmp_of lessThanFunc"
  let ?k = "size (ritems (a, x, l))"
  from assms have root: "h_root h = Some a" and ta: "tree_at (mem h) (a, x, l)"
    and iso: "isolated (mem h) a" and d: "rdist (a, x, l)"
    and sz: "h_size h = int ?k" and fb: "\<forall>m\<in>raddrs (a, x, l). m < fresh h"
    and pk: "pool_ok h (raddrs (a, x, l))"
    by (auto simp: heap_shape_def Some r)
  have ks: "?k \<le> stack" using assms(2) by (simp add: Some r)
  from iterate_ok[OF ta d ks, of lessThanFunc False "[]"] obtain s' where
    it: "iterate lessThanFunc False stack (Some a) [] (mem h)
           = Some (Inr ([] @ map (yield_of False) (drain_fuel stack ?cmp (a, x, l)), s'))"
        "tree_at s' (path_fuel stack ?cmp (a, x, l))"
        "prev (s' a) = prev (mem h a)" "nxt (s' a) = nxt (mem h a)"
        "\<forall>m. m \<notin> raddrs (a, x, l) \<longrightarrow> s' m = mem h m"
    by auto
  from path_fuel_parts[OF d ks, of ?cmp] have p:
    "rdist (path_fuel stack ?cmp (a, x, l))"
    "raddrs (path_fuel stack ?cmp (a, x, l)) = raddrs (a, x, l)"
    "fst (path_fuel stack ?cmp (a, x, l)) = a" by auto
  let ?h' = "h\<lparr>mem := s'\<rparr>"
  have dr: "drain_fuel stack ?cmp (a, x, l) = drain ?cmp ro"
    using drain_fuel_enough[OF ks, of ?cmp] by (simp add: Some r)
  have "iterator lessThanFunc stack h
          = Some (Inr (map (\<lambda>p. Some (snd p)) (drain ?cmp ro), ?h'))"
    using it(1)[unfolded dr] root by (simp add: iterator_def)
  moreover have pk': "pool_ok ?h' (raddrs (a, x, l))"
    using pk it(5) by (auto simp: pool_ok_def split: option.splits)
  moreover obtain pa px pl where pf: "path_fuel stack ?cmp (a, x, l) = (pa, px, pl)"
    by (cases "path_fuel stack ?cmp (a, x, l)")
  have ri: "ritems (pa, px, pl) = ritems (a, x, l)"
    using ritems_path_fuel[of stack ?cmp "(a, x, l)"] unfolding pf .
  have "heap_shape ?h' (Some (pa, px, pl))"
    using it(2,3,4)[unfolded pf] p[unfolded pf] pk' ri iso root sz fb
    by (simp add: heap_shape_def isolated_def)
  then have "heap_shape ?h' (Some (path_fuel stack ?cmp (a, x, l)))"
    unfolding pf .
  ultimately show ?thesis using it(5) by (auto simp: Some r)
qed

lemma iterator_overflow:
  assumes "heap_shape h ro" "stack < size (oitems ro) \<or> stack = 0"
  shows "iterator lessThanFunc stack h = Some (Inl RangeError)"
proof (cases "stack = 0")
  case True
  then show ?thesis by (simp add: iterator_def iterate.simps(1))
next
  case False
  then have lt: "stack < size (oitems ro)" using assms(2) by simp
  then obtain a x l where ro: "ro = Some (a, x, l)" by (cases ro) auto
  from assms(1) have root: "h_root h = Some a" and ta: "tree_at (mem h) (a, x, l)"
    and d: "rdist (a, x, l)"
    by (auto simp: heap_shape_def ro)
  have "stack < size (ritems (a, x, l))" using lt by (simp add: ro)
  from iterate_overflow[OF ta d this, of lessThanFunc False "[]"] show ?thesis
    using root by (simp add: iterator_def)
qed

section \<open>The operations keep the invariant\<close>

lemma heap_inv_facts:
  "swo (cmp_of lessThanFunc) \<Longrightarrow> heap_inv lessThanFunc h \<Longrightarrow>
     heap_invariants lessThanFunc h \<and> root_detached h"
  using shape_facts[of h _ lessThanFunc] by (auto simp: heap_inv_def heap_invariants_def)

lemma heap_wf_detached: "heap_wf h \<Longrightarrow> root_detached h"
  by (auto simp: heap_wf_def heap_shape_def root_detached_def tree_ok_def isolated_def
        split: option.splits)

lemma add_inv:
  assumes "swo (cmp_of lessThanFunc)" "heap_inv lessThanFunc h"
  shows "heap_inv lessThanFunc (snd (add lessThanFunc x h))"
proof -
  from assms(2) obtain ro where ro: "heap_shape h ro" "oheap (cmp_of lessThanFunc) ro"
    by (auto simp: heap_inv_def)
  from add_shape[OF ro(1), of lessThanFunc x] obtain n h' where
    a: "add lessThanFunc x h = (n, h')"
       "heap_shape h' (Some (add_abs (cmp_of lessThanFunc) n x ro))" by auto
  have "oheap (cmp_of lessThanFunc) (Some (add_abs (cmp_of lessThanFunc) n x ro))"
    using rheap_add_abs[OF assms(1) ro(2)] by simp
  then show ?thesis using a unfolding heap_inv_def by auto
qed

lemma add_wf: "heap_wf h \<Longrightarrow> heap_wf (snd (add lessThanFunc x h))"
  using add_shape[of h _ lessThanFunc x] unfolding heap_wf_def by fastforce

lemma delete_inv:
  assumes "swo (cmp_of lessThanFunc)" "heap_inv lessThanFunc h"
    "n \<in> reach (mem h) (h_root h)"
  shows "\<exists>h'. delete lessThanFunc n h = Some (Inr h') \<and> heap_inv lessThanFunc h'"
proof -
  from assms(2) obtain ro where ro: "heap_shape h ro" "oheap (cmp_of lessThanFunc) ro"
    by (auto simp: heap_inv_def)
  have n: "n \<in> oaddrs ro" using assms(3) heap_shape_reach[OF ro(1)] by simp
  from delete_shape[OF ro(1) n, of lessThanFunc] obtain h' where
    d: "delete lessThanFunc n h = Some (Inr h')"
       "heap_shape h' (delete_abs (cmp_of lessThanFunc) n ro)" by auto
  have "oheap (cmp_of lessThanFunc) (delete_abs (cmp_of lessThanFunc) n ro)"
    using assms(1) ro(2) by (rule oheap_delete_abs)
  then show ?thesis using d unfolding heap_inv_def by auto
qed

lemma delete_wf:
  assumes "heap_wf h" "n \<in> reach (mem h) (h_root h)"
  shows "\<exists>h'. delete lessThanFunc n h = Some (Inr h') \<and> heap_wf h' \<and> cleared (mem h' n) \<and>
           n \<notin> reach (mem h') (h_root h') \<and>
           reach (mem h') (h_root h') = reach (mem h) (h_root h) - {n} \<and>
           (\<forall>m. m \<notin> reach (mem h) (h_root h) \<longrightarrow> mem h' m = mem h m) \<and>
           fresh h' = fresh h \<and>
           h_objectPool h' = map_option (pool_release n) (h_objectPool h)"
proof -
  from assms(1) obtain ro where ro: "heap_shape h ro" by (auto simp: heap_wf_def)
  have rh: "reach (mem h) (h_root h) = oaddrs ro" using heap_shape_reach[OF ro] .
  have n: "n \<in> oaddrs ro" using assms(2) rh by simp
  from delete_shape[OF ro n, of lessThanFunc] obtain h' where
    d: "delete lessThanFunc n h = Some (Inr h')"
       "heap_shape h' (delete_abs (cmp_of lessThanFunc) n ro)"
       "oaddrs (delete_abs (cmp_of lessThanFunc) n ro) = oaddrs ro - {n}"
       "cleared (mem h' n)" "\<forall>m. m \<notin> oaddrs ro \<longrightarrow> mem h' m = mem h m"
       "fresh h' = fresh h" "h_objectPool h' = map_option (pool_release n) (h_objectPool h)"
    by auto
  have rh': "reach (mem h') (h_root h') = oaddrs ro - {n}"
    using heap_shape_reach[OF d(2)] d(3) by simp
  show ?thesis using d rh rh' unfolding heap_wf_def by auto
qed

lemma deleteMin_as_delete:
  "deleteMin lessThanFunc h =
     (case h_root h of
        None \<Rightarrow> Some (Inr (None, h))
      | Some r \<Rightarrow> map_option (map_sum id (Pair (item (mem h r)))) (delete lessThanFunc r h))"
  by (auto simp: deleteMin_def Let_def split: option.splits sum.splits)

lemma root_in_reach: "h_root h = Some r \<Longrightarrow> r \<in> reach (mem h) (h_root h)"
  by (rule reach.start)

lemma deleteMin_inv:
  assumes "swo (cmp_of lessThanFunc)" "heap_inv lessThanFunc h"
  shows "\<exists>y h'. deleteMin lessThanFunc h = Some (Inr (y, h')) \<and> heap_inv lessThanFunc h'"
proof (cases "h_root h")
  case None
  then show ?thesis using assms(2) by (simp add: deleteMin_as_delete)
next
  case (Some r)
  from delete_inv[OF assms root_in_reach[OF Some], of ] obtain h' where
    "delete lessThanFunc r h = Some (Inr h')" "heap_inv lessThanFunc h'" by auto
  then show ?thesis using Some by (simp add: deleteMin_as_delete)
qed

lemma deleteMin_wf:
  assumes "heap_wf h"
  shows "\<exists>y h'. deleteMin lessThanFunc h = Some (Inr (y, h')) \<and> heap_wf h' \<and>
           (\<forall>r. h_root h = Some r \<longrightarrow> cleared (mem h' r) \<and>
              reach (mem h') (h_root h') = reach (mem h) (h_root h) - {r}) \<and>
           (\<forall>m. m \<notin> reach (mem h) (h_root h) \<longrightarrow> mem h' m = mem h m) \<and>
           fresh h' = fresh h"
proof (cases "h_root h")
  case None
  then show ?thesis using assms by (simp add: deleteMin_as_delete)
next
  case (Some r)
  from delete_wf[OF assms root_in_reach[OF Some], of lessThanFunc] obtain h' where
    "delete lessThanFunc r h = Some (Inr h')" "heap_wf h'" "cleared (mem h' r)"
    "reach (mem h') (h_root h') = reach (mem h) (h_root h) - {r}"
    "\<forall>m. m \<notin> reach (mem h) (h_root h) \<longrightarrow> mem h' m = mem h m" "fresh h' = fresh h"
    by auto
  then show ?thesis using Some by (simp add: deleteMin_as_delete)
qed

lemma label_of_item:
  assumes "heap_shape h ro" "n \<in> oaddrs ro"
  shows "\<exists>y. label_of n ro = Some y \<and> item (mem h n) = Some y"
proof -
  obtain a x l where ro: "ro = Some (a, x, l)" using assms(2) by (cases ro) auto
  let ?t = "PNode l a x Tip"
  from assms(1) have rt: "repr (mem h) None (Some a) ?t"
    by (auto simp: heap_shape_def ro isolated_def)
  have "n \<in> addrs ?t" using assms(2) by (simp add: ro)
  then obtain u where u: "sub_at n ?t = Some u"
    using sub_at_None[of n ?t] by (cases "sub_at n ?t") auto
  obtain m y ln where ut: "u = (m, y, ln)" by (cases u)
  have "m = n" using sub_at_fst[OF u] ut by simp
  then have "item (mem h n) = Some y" using sub_at_tree[OF rt u] ut by simp
  moreover have "label_of n ro = Some y" using u ut by (simp add: label_of_def ro)
  ultimately show ?thesis by blast
qed

lemma decreaseKey_inv:
  assumes "swo (cmp_of lessThanFunc)" "heap_inv lessThanFunc h"
    "n \<in> reach (mem h) (h_root h)" "\<not> lessThanFunc (item (mem h n)) (Some v)"
  shows "\<exists>h'. decreaseKey lessThanFunc n (h\<lparr>mem := set_item n (Some v) (mem h)\<rparr>) = Inr h' \<and>
           heap_inv lessThanFunc h'"
proof -
  let ?cmp = "cmp_of lessThanFunc"
  from assms(2) obtain ro where ro: "heap_shape h ro" "oheap ?cmp ro"
    by (auto simp: heap_inv_def)
  have n: "n \<in> oaddrs ro" using assms(3) heap_shape_reach[OF ro(1)] by simp
  from label_of_item[OF ro(1) n] obtain y where
    y: "label_of n ro = Some y" "item (mem h n) = Some y" by auto
  have ny: "\<not> ?cmp y v" using assms(4) y(2) by (simp add: cmp_of_def)
  let ?h1 = "h\<lparr>mem := set_item n (Some v) (mem h)\<rparr>"
  let ?ro1 = "map_option (rrelabel n v) ro"
  have s1: "heap_shape ?h1 ?ro1" using ro(1) by (rule set_item_shape)
  have n1: "n \<in> oaddrs ?ro1" using n by (cases ro) (auto split: prod.splits)
  from decreaseKey_shape[OF s1 n1, of lessThanFunc] obtain h' where
    d: "decreaseKey lessThanFunc n ?h1 = Inr h'" "heap_shape h' (decrease_abs ?cmp n ?ro1)"
    by auto
  have rd: "case ro of None \<Rightarrow> True | Some r \<Rightarrow> rdist r"
    using ro(1) by (auto simp: heap_shape_def split: option.splits)
  have "oheap ?cmp (decrease_abs ?cmp n ?ro1)"
    using assms(1) ro(2) n y(1) ny rd by (rule oheap_decrease_abs)
  then show ?thesis using d unfolding heap_inv_def by auto
qed

lemma decreaseKey_wf:
  assumes "heap_wf h" "n \<in> reach (mem h) (h_root h)"
  shows "\<exists>h'. decreaseKey lessThanFunc n h = Inr h' \<and> heap_wf h' \<and>
           reach (mem h') (h_root h') = reach (mem h) (h_root h) \<and>
           (\<forall>m. m \<notin> reach (mem h) (h_root h) \<longrightarrow> mem h' m = mem h m) \<and>
           fresh h' = fresh h"
proof -
  from assms(1) obtain ro where ro: "heap_shape h ro" by (auto simp: heap_wf_def)
  have rh: "reach (mem h) (h_root h) = oaddrs ro" using heap_shape_reach[OF ro] .
  have n: "n \<in> oaddrs ro" using assms(2) rh by simp
  from decreaseKey_shape[OF ro n, of lessThanFunc] obtain h' where
    d: "decreaseKey lessThanFunc n h = Inr h'"
       "heap_shape h' (decrease_abs (cmp_of lessThanFunc) n ro)"
       "oaddrs (decrease_abs (cmp_of lessThanFunc) n ro) = oaddrs ro"
       "\<forall>m. m \<notin> oaddrs ro \<longrightarrow> mem h' m = mem h m" "fresh h' = fresh h"
    by auto
  have "reach (mem h') (h_root h') = oaddrs ro" using heap_shape_reach[OF d(2)] d(3) by simp
  then show ?thesis using d rh unfolding heap_wf_def by auto
qed

lemma clear_shape: "heap_shape h ro \<Longrightarrow> heap_shape (clear h) None"
  by (auto simp: heap_shape_def clear_def pool_ok_def split: option.splits)

lemma clear_inv: "heap_inv lessThanFunc h \<Longrightarrow> heap_inv lessThanFunc (clear h)"
  using clear_shape unfolding heap_inv_def by (metis oheap_simps(1))

lemma clear_wf: "heap_wf h \<Longrightarrow> heap_wf (clear h)"
  using clear_shape unfolding heap_wf_def by blast

lemma iterator_wf:
  assumes "heap_wf h" "h_size h \<le> int stack" "0 < stack"
  shows "\<exists>ys h'. iterator lessThanFunc stack h = Some (Inr (ys, h')) \<and> heap_wf h' \<and>
           h' = h\<lparr>mem := mem h'\<rparr> \<and>
           reach (mem h') (h_root h') = reach (mem h) (h_root h) \<and>
           (\<forall>m. m \<notin> reach (mem h) (h_root h) \<longrightarrow> mem h' m = mem h m)"
proof -
  let ?cmp = "cmp_of lessThanFunc"
  from assms(1) obtain ro where ro: "heap_shape h ro" by (auto simp: heap_wf_def)
  have rh: "reach (mem h) (h_root h) = oaddrs ro" using heap_shape_reach[OF ro] .
  have sz: "size (oitems ro) \<le> stack" using ro assms(2) by (simp add: heap_shape_def)
  let ?ro' = "map_option (path_fuel stack ?cmp) ro"
  from iterator_shape[OF ro sz assms(3), of lessThanFunc] obtain h' where
    i: "iterator lessThanFunc stack h
          = Some (Inr (map (\<lambda>p. Some (snd p)) (drain ?cmp ro), h'))"
       "heap_shape h' ?ro'" "h' = h\<lparr>mem := mem h'\<rparr>"
       "\<forall>m. m \<notin> oaddrs ro \<longrightarrow> mem h' m = mem h m"
    by blast
  have "oaddrs ?ro' = oaddrs ro"
  proof (cases ro)
    case (Some r)
    have "rdist r" using ro Some by (simp add: heap_shape_def)
    moreover have "size (ritems r) \<le> stack" using sz Some by simp
    ultimately show ?thesis using path_fuel_parts[of r stack ?cmp] by (simp add: Some)
  qed simp
  then have "reach (mem h') (h_root h') = oaddrs ro" using heap_shape_reach[OF i(2)] by simp
  then show ?thesis using i rh unfolding heap_wf_def by blast
qed

lemma iterator_inv:
  assumes "swo (cmp_of lessThanFunc)" "heap_inv lessThanFunc h"
    "h_size h \<le> int stack" "0 < stack"
  shows "\<exists>ys h'. iterator lessThanFunc stack h = Some (Inr (ys, h')) \<and>
           heap_inv lessThanFunc h'"
proof -
  let ?cmp = "cmp_of lessThanFunc"
  from assms(2) obtain ro where ro: "heap_shape h ro" "oheap ?cmp ro"
    by (auto simp: heap_inv_def)
  have sz: "size (oitems ro) \<le> stack" using ro(1) assms(3) by (simp add: heap_shape_def)
  let ?ro' = "map_option (path_fuel stack ?cmp) ro"
  from iterator_shape[OF ro(1) sz assms(4), of lessThanFunc] obtain h' where
    i: "iterator lessThanFunc stack h
          = Some (Inr (map (\<lambda>p. Some (snd p)) (drain ?cmp ro), h'))"
       "heap_shape h' ?ro'"
    by blast
  have "oheap ?cmp ?ro'" using ro(2) assms(1) by (cases ro) (auto intro: rheap_path_fuel)
  then show ?thesis using i unfolding heap_inv_def by blast
qed

lemma swo_lessThanDefault: "swo (cmp_of lessThanDefault)"
  unfolding swo_def cmp_of_def lessThanDefault_def by auto

text \<open>
  The two example heaps are states of the program: \<open>add\<close> of 5, 3, 8, 1 and 9 to a new
  heap and \<open>delete\<close> of the node of 9 lead to them.
\<close>

lemma heap_ex_built:
  "delete lessThanDefault 4
     (snd (add lessThanDefault 9 (add_all lessThanDefault [5, 3, 8, 1] (heap_new None))))
     = Some (Inr heap_ex)"
  by (simp add: add_def delete_def delete_finish_def collapse_def merge_def heap_new_def
        heap_ex_def mem_ex_def blank_def lessThanDefault_def Let_def set_item_def set_next_def
        set_prev_def set_child_def fun_eq_iff)

lemma heap_pool_ex_built:
  "delete lessThanDefault 4
     (snd (add lessThanDefault 9 (add_all lessThanDefault [5, 3, 8, 1]
        (heap_new (Some \<lparr>pool_items = [], maxSize = 2\<rparr>)))))
     = Some (Inr heap_pool_ex)"
  by (simp add: add_def delete_def delete_finish_def collapse_def merge_def heap_new_def
        heap_pool_ex_def heap_ex_def mem_ex_def blank_def lessThanDefault_def Let_def
        set_item_def set_next_def set_prev_def set_child_def pool_get_def pool_release_def
        fun_eq_iff)

lemma heap_ex_shape: "heap_shape heap_ex (Some tree_ex)"
  by (simp add: heap_shape_def heap_ex_def tree_ex_def mem_ex_def pool_ok_def isolated_def)

lemma heap_pool_ex_shape: "heap_shape heap_pool_ex (Some tree_ex)"
  by (simp add: heap_shape_def heap_pool_ex_def heap_ex_def tree_ex_def mem_ex_def pool_ok_def
        isolated_def blank_def)

lemma heap_ex_inv: "heap_inv lessThanDefault heap_ex"
  unfolding heap_inv_def
  by (rule exI[of _ "Some tree_ex"])
     (simp add: heap_ex_shape, simp add: tree_ex_def cmp_of_def lessThanDefault_def)

lemma heap_ex_reach: "reach (mem heap_ex) (h_root heap_ex) = {0, 1, 2, 3}"
  using heap_shape_reach[OF heap_ex_shape] by (auto simp: tree_ex_def)

lemma heap_pool_ex_reach: "reach (mem heap_pool_ex) (h_root heap_pool_ex) = {0, 1, 2, 3}"
  using heap_shape_reach[OF heap_pool_ex_shape] by (auto simp: tree_ex_def)

lemma heap_new_shape: "heap_shape (heap_new pool) None"
  by (cases pool) (simp_all add: heap_shape_def heap_new_def pool_ok_def)

lemma heap_new_inv: "heap_inv lessThanDefault (heap_new pool)"
  unfolding heap_inv_def using heap_new_shape by (metis oheap_simps(1))

lemma roundtrip_abs:
  assumes "n \<notin> oaddrs ro"
  shows "delete_abs cmp n (Some (add_abs cmp n x ro)) = ro"
proof (cases ro)
  case None
  then show ?thesis by (simp add: add_abs_def delete_abs_def)
next
  case (Some r)
  obtain a y l where r: "r = (a, y, l)" by (cases r)
  from assms have an: "a \<noteq> n" and nl: "n \<notin> addrs l" by (auto simp: Some r)
  show ?thesis
  proof (cases "cmp x y")
    case True
    then show ?thesis using an by (simp add: add_abs_def delete_abs_def Some r link.simps)
  next
    case False
    then show ?thesis using an nl
      by (simp add: add_abs_def delete_abs_def Some r link.simps del_inner.simps)
  qed
qed

lemma shape_getMin:
  "heap_shape h ro \<Longrightarrow> getMin h = map_option (\<lambda>r. fst (snd r)) ro \<and>
     h_root h = map_option fst ro \<and> h_size h = int (size (oitems ro))"
  by (cases ro) (auto simp: heap_shape_def getMin_def)

lemma add_dead_cleared:
  assumes "heap_wf h" "dead_cleared h"
  shows "dead_cleared (snd (add lessThanFunc x h))"
proof -
  from assms(1) obtain ro where ro: "heap_shape h ro" by (auto simp: heap_wf_def)
  have rh: "reach (mem h) (h_root h) = oaddrs ro" using heap_shape_reach[OF ro] .
  from add_shape[OF ro, of lessThanFunc x] obtain n h' where
    a: "add lessThanFunc x h = (n, h')"
       "heap_shape h' (Some (add_abs (cmp_of lessThanFunc) n x ro))"
       "\<forall>m. m \<noteq> n \<and> m \<notin> oaddrs ro \<longrightarrow> mem h' m = mem h m"
       "fresh h' = fresh h \<and> n < fresh h \<or> fresh h' = Suc (fresh h) \<and> n = fresh h"
    by auto
  have rh': "reach (mem h') (h_root h') = insert n (oaddrs ro)"
    using heap_shape_reach[OF a(2)] by simp
  have "cleared (mem h' m)" if "m < fresh h'" "m \<notin> insert n (oaddrs ro)" for m
  proof -
    have "m < fresh h" using that a(4) by auto
    then have "cleared (mem h m)" using assms(2) that(2) rh by (auto simp: dead_cleared_def)
    then show ?thesis using a(3) that(2) by simp
  qed
  then have "dead_cleared h'" unfolding dead_cleared_def rh' by blast
  then show ?thesis using a(1) by simp
qed

lemma set_item_wf: "heap_wf h \<Longrightarrow> heap_wf (h\<lparr>mem := set_item n (Some v) (mem h)\<rparr>)"
  unfolding heap_wf_def by (auto intro: set_item_shape)

lemma heap_ex_wf: "heap_wf heap_ex"
  using heap_ex_shape by (auto simp: heap_wf_def)

lemma heap_ex_dead: "dead_cleared heap_ex"
  unfolding dead_cleared_def heap_ex_reach
  by (auto simp: heap_ex_def mem_ex_def blank_def cleared_def)

lemma pool_node_clean:
  assumes "heap_wf h" "h_objectPool h = Some p" "fst (pool_get p) = Some n"
  shows "child (mem h n) = None \<and> nxt (mem h n) = None \<and> prev (mem h n) = None"
proof -
  from assms(1) obtain ro where "heap_shape h ro" by (auto simp: heap_wf_def)
  then have pk: "pool_ok h (oaddrs ro)" by (simp add: heap_shape_def)
  have "n \<in> set (pool_items p)"
    using assms(3) by (auto simp: pool_get_def split: list.splits)
  then show ?thesis using pk assms(2) by (auto simp: pool_ok_def)
qed

lemma decreaseKey_keeps_children:
  assumes "heap_wf h" "n \<in> reach (mem h) (h_root h)"
  shows "\<exists>h'. decreaseKey lessThanFunc n h = Inr h' \<and>
           reach (mem h) (child (mem h n)) \<subseteq> reach (mem h') (child (mem h' n))"
proof -
  let ?cmp = "cmp_of lessThanFunc"
  from assms(1) obtain ro where ro: "heap_shape h ro" by (auto simp: heap_wf_def)
  have n: "n \<in> oaddrs ro" using assms(2) heap_shape_reach[OF ro] by simp
  then obtain a x l where r: "ro = Some (a, x, l)" by (cases ro) auto
  from ro have root: "h_root h = Some a" and rl: "repr (mem h) (Some a) (child (mem h a)) l"
    by (auto simp: heap_shape_def r)
  from decreaseKey_shape[OF ro n, of lessThanFunc] obtain h' where
    d: "decreaseKey lessThanFunc n h = Inr h'" "heap_shape h' (decrease_abs ?cmp n ro)"
    by auto
  show ?thesis
  proof (cases "n = a")
    case True
    then have "h' = h" using d(1) root by (simp add: decreaseKey_unlink_eq)
    then show ?thesis using d(1) by auto
  next
    case False
    then have "n \<in> addrs l" using n by (simp add: r)
    then obtain u where u: "sub_at n l = Some u"
      using sub_at_None[of n l] by (cases "sub_at n l") auto
    obtain m y ln where ut: "u = (m, y, ln)" by (cases u)
    have mn: "m = n" using sub_at_fst[OF u] ut by simp
    have "tree_at (mem h) (n, y, ln)" using sub_at_tree[OF rl u] ut mn by simp
    then have before: "reach (mem h) (child (mem h n)) = addrs ln"
      using reach_repr[of "mem h" "Some n" "child (mem h n)" ln] by simp
    have da: "decrease_abs ?cmp n ro = Some (link ?cmp (a, x, cut n l) (n, y, ln))"
      using False u ut mn by (simp add: decrease_abs_def r dec_inner.simps)
    have t': "tree_at (mem h') (link ?cmp (a, x, cut n l) (n, y, ln))"
      using d(2) unfolding da by (simp add: heap_shape_def)
    have "addrs ln \<subseteq> reach (mem h') (child (mem h' n))"
    proof (cases "?cmp y x")
      case True
      then have "repr (mem h') (Some n) (child (mem h' n)) (PNode (cut n l) a x ln)"
        using t' by (simp add: link.simps)
      from reach_repr[OF this] show ?thesis by auto
    next
      case False
      then have "repr (mem h') (Some n) (child (mem h' n)) ln"
        using t' by (simp add: link.simps)
      from reach_repr[OF this] show ?thesis by auto
    qed
    then show ?thesis using d(1) before by auto
  qed
qed

section \<open>The claims\<close>

text \<open>
  C1, as stated, fails for the iteration: the generator nests one level deeper with
  every item it yields, so on a heap with more items than the call stack has room for
  nested generators the default iteration throws a \<open>RangeError\<close> where the claim has it
  yield the sequence that repeated \<open>deleteMin\<close> returns. Here 5, 3, 8 and 1 are added to a
  new heap: four calls of \<open>deleteMin\<close> return 1, 3, 5, 8, and the iteration on a stack with
  room for three generators throws.
\<close>

theorem iteration_overflow_counterexample:
  "map_option (map_sum id fst)
     (deleteMin_times lessThanDefault 4 (add_all lessThanDefault [5, 3, 8, 1] (heap_new None)))
     = Some (Inr [Some 1, Some 3, Some 5, Some 8]) \<and>
   iterator lessThanDefault 3 (add_all lessThanDefault [5, 3, 8, 1] (heap_new None))
     = Some (Inl RangeError)"
  by (simp add: add_def delete_def deleteMin_def delete_finish_def iterator_def
        iterate.simps collapse_def collapse_pass1.simps collapse_pass2.simps merge_def
        heap_new_def lessThanDefault_def Let_def set_item_def set_next_def set_prev_def
        set_child_def numeral_nat)

text \<open>
  C1, as far as the code goes. Items added in any order to an empty heap come back from
  repeated \<open>deleteMin\<close> in non-decreasing order under the comparator: the calls terminate
  without error, what they return is a rearrangement of what was added, no later item
  compares strictly less than an earlier one, and the heap is empty afterwards. The
  default iteration over the same heap yields the very same sequence and leaves \<open>size\<close> as
  it was, and repeated \<open>deleteMin\<close> after it still returns that sequence, when the call
  stack has room for one nested generator for each item. When it has room for fewer, the
  iteration throws a \<open>RangeError\<close>.
\<close>

theorem sorted_extraction:
  assumes "swo (cmp_of lessThanFunc)" "heap_inv lessThanFunc h0" "h_root h0 = None"
  shows "\<exists>ys h'.
           deleteMin_times lessThanFunc (length xs) (add_all lessThanFunc xs h0)
             = Some (Inr (map Some ys, h')) \<and>
           sorted_wrt (\<lambda>x y. \<not> lessThanFunc (Some y) (Some x)) ys \<and>
           mset ys = mset xs \<and> isEmpty h' \<and>
           h_size (add_all lessThanFunc xs h0) = int (length xs) \<and>
           (0 < stack \<and> length xs \<le> stack \<longrightarrow>
              (\<exists>h''. iterator lessThanFunc stack (add_all lessThanFunc xs h0)
                        = Some (Inr (map Some ys, h'')) \<and>
                 h_size h'' = h_size (add_all lessThanFunc xs h0) \<and>
                 (\<exists>h3. deleteMin_times lessThanFunc (length xs) h''
                          = Some (Inr (map Some ys, h3))))) \<and>
           (stack < length xs \<or> stack = 0 \<longrightarrow>
              iterator lessThanFunc stack (add_all lessThanFunc xs h0) = Some (Inl RangeError))"
proof -
  let ?cmp = "cmp_of lessThanFunc"
  let ?h = "add_all lessThanFunc xs h0"
  from assms(2) obtain r0 where r0: "heap_shape h0 r0" by (auto simp: heap_inv_def)
  then have "r0 = None" using assms(3) by (cases r0) (auto simp: heap_shape_def)
  then have s0: "heap_shape h0 None" using r0 by simp
  from add_all_shape[OF s0, of lessThanFunc xs] assms(1) obtain ro where
    ro: "heap_shape ?h ro" "oitems ro = mset xs" "oheap ?cmp ro"
    by auto
  have sz: "size (oitems ro) = length xs" using ro(2) by simp
  let ?ys = "map snd (drain ?cmp ro)"
  have m: "map (\<lambda>p. Some (snd p)) (drain ?cmp ro) = map Some ?ys" by simp
  from drain_props[OF assms(1) ro(3) sz] have dp:
    "mset ?ys = mset xs" "sorted_wrt (\<lambda>x y. \<not> ?cmp y x) ?ys"
    using ro(2) by auto
  from deleteMin_times_shape[OF ro(1) sz, of lessThanFunc] obtain h' where
    d: "deleteMin_times lessThanFunc (length xs) ?h = Some (Inr (map Some ?ys, h'))"
       "heap_shape h' None"
    unfolding m by blast
  have within: "\<exists>h''. iterator lessThanFunc stack ?h = Some (Inr (map Some ?ys, h'')) \<and>
                 h_size h'' = h_size ?h \<and>
                 (\<exists>h3. deleteMin_times lessThanFunc (length xs) h''
                          = Some (Inr (map Some ?ys, h3)))"
    if st: "0 < stack \<and> length xs \<le> stack"
  proof -
    have sk: "size (oitems ro) \<le> stack" "0 < stack" using st sz by auto
    let ?ro' = "map_option (path_fuel stack ?cmp) ro"
    from iterator_shape[OF ro(1) sk, of lessThanFunc] obtain h'' where
      i: "iterator lessThanFunc stack ?h = Some (Inr (map Some ?ys, h''))"
         "h'' = ?h\<lparr>mem := mem h''\<rparr>" "heap_shape h'' ?ro'"
      unfolding m by blast
    have sz': "size (oitems ?ro') = length xs" using sz by (cases ro) auto
    have dr': "drain ?cmp ?ro' = drain ?cmp ro"
      using sk(1) by (cases ro) (simp_all add: drain_path_fuel)
    from deleteMin_times_shape[OF i(3) sz', of lessThanFunc] obtain h3 where
      "deleteMin_times lessThanFunc (length xs) h'' = Some (Inr (map Some ?ys, h3))"
      unfolding dr' m by blast
    then have again:
      "\<exists>h3. deleteMin_times lessThanFunc (length xs) h'' = Some (Inr (map Some ?ys, h3))"
      by blast
    have "h_size h'' = h_size ?h" using i(2)
      by (metis PairingHeap.select_convs(4) PairingHeap.surjective PairingHeap.update_convs(1))
    then show ?thesis using i(1) again by blast
  qed
  have beyond: "iterator lessThanFunc stack ?h = Some (Inl RangeError)"
    if "stack < length xs \<or> stack = 0"
    using iterator_overflow[OF ro(1), of stack lessThanFunc] that sz by simp
  have "isEmpty h'" using d(2) by (simp add: heap_shape_def isEmpty_def)
  moreover have "h_size ?h = int (length xs)" using ro(1) sz by (simp add: heap_shape_def)
  moreover have "sorted_wrt (\<lambda>x y. \<not> lessThanFunc (Some y) (Some x)) ?ys"
    using dp(2) by (simp add: cmp_of_def)
  ultimately show ?thesis using d(1) dp(1) within beyond by blast
qed

theorem sorted_extraction_witness:
  "(\<exists>ys h' h''.
      deleteMin_times lessThanDefault 4 (add_all lessThanDefault [5, 3, 8, 1] (heap_new None))
        = Some (Inr (map Some ys, h')) \<and>
      sorted_wrt (\<lambda>x y. \<not> lessThanDefault (Some y) (Some x)) ys \<and>
      mset ys = {#1, 3, 5, 8#} \<and> isEmpty h' \<and>
      iterator lessThanDefault 4 (add_all lessThanDefault [5, 3, 8, 1] (heap_new None))
        = Some (Inr (map Some ys, h'')) \<and>
      h_size h'' = 4) \<and>
   iterator lessThanDefault 3 (add_all lessThanDefault [5, 3, 8, 1] (heap_new None))
     = Some (Inl RangeError)"
proof -
  let ?H = "add_all lessThanDefault [5, 3, 8, 1] (heap_new None)"
  have r: "h_root (heap_new None) = None" by (simp add: heap_new_def)
  have len: "length [5, 3, 8, 1 :: int] = 4" by simp
  have ms: "mset [5, 3, 8, 1 :: int] = {#1, 3, 5, 8#}" by (simp add: add_mset_commute)
  note s = sorted_extraction[OF swo_lessThanDefault heap_new_inv r, of "[5, 3, 8, 1]"]
  have b4: "0 < (4::nat) \<and> (4::nat) \<le> 4" and b3: "(3::nat) < 4 \<or> (3::nat) = 0" by simp_all
  from s[of 4, unfolded len ms of_nat_numeral] b4 obtain ys h' h'' where
    f: "deleteMin_times lessThanDefault 4 ?H = Some (Inr (map Some ys, h'))"
       "sorted_wrt (\<lambda>x y. \<not> lessThanDefault (Some y) (Some x)) ys"
       "mset ys = {#1, 3, 5, 8#}" "isEmpty h'"
       "iterator lessThanDefault 4 ?H = Some (Inr (map Some ys, h''))"
       "h_size h'' = h_size ?H" "h_size ?H = 4"
    by blast
  have "h_size h'' = 4" using f(6,7) by (simp only:)
  moreover have "iterator lessThanDefault 3 ?H = Some (Inl RangeError)"
    using s[of 3, unfolded len] b3 by blast
  ultimately show ?thesis using f(1-5) by blast
qed

text \<open>
  C2. On a heap that satisfies the representation invariant, the heap invariants hold:
  no descendant of a node of the heap compares strictly less than the node, so that the
  root holds a minimum, and \<open>size\<close> is the number of nodes reachable from the root. Every
  public operation terminates without error and leaves a heap that satisfies the
  representation invariant, and with it the heap invariants, again: \<open>add\<close>, \<open>deleteMin\<close>,
  \<open>delete\<close> on a node of the heap, \<open>decreaseKey\<close> on a node of the heap after its item was
  set to a value that does not compare greater than the old one, and \<open>clear\<close>; so does
  the iteration on a call stack with room for one nested generator for each node.
\<close>

theorem public_operations_keep_invariants:
  assumes "swo (cmp_of lessThanFunc)" "heap_inv lessThanFunc h"
  shows "heap_invariants lessThanFunc h \<and>
     (heap_inv lessThanFunc (snd (add lessThanFunc x h)) \<and>
      heap_invariants lessThanFunc (snd (add lessThanFunc x h))) \<and>
     (\<exists>y h'. deleteMin lessThanFunc h = Some (Inr (y, h')) \<and>
        heap_inv lessThanFunc h' \<and> heap_invariants lessThanFunc h') \<and>
     (n \<in> reach (mem h) (h_root h) \<longrightarrow>
        (\<exists>h'. delete lessThanFunc n h = Some (Inr h') \<and>
           heap_inv lessThanFunc h' \<and> heap_invariants lessThanFunc h')) \<and>
     (n \<in> reach (mem h) (h_root h) \<and> \<not> lessThanFunc (item (mem h n)) (Some v) \<longrightarrow>
        (\<exists>h'. decreaseKey lessThanFunc n (h\<lparr>mem := set_item n (Some v) (mem h)\<rparr>) = Inr h' \<and>
           heap_inv lessThanFunc h' \<and> heap_invariants lessThanFunc h')) \<and>
     (heap_inv lessThanFunc (clear h) \<and> heap_invariants lessThanFunc (clear h)) \<and>
     (0 < stack \<and> h_size h \<le> int stack \<longrightarrow>
        (\<exists>ys h'. iterator lessThanFunc stack h = Some (Inr (ys, h')) \<and>
           heap_inv lessThanFunc h' \<and> heap_invariants lessThanFunc h'))"
proof -
  note f = heap_inv_facts[OF assms(1)]
  have 1: "heap_invariants lessThanFunc h" using f[OF assms(2)] by simp
  have 2: "heap_inv lessThanFunc (snd (add lessThanFunc x h)) \<and>
      heap_invariants lessThanFunc (snd (add lessThanFunc x h))"
    using add_inv[OF assms, of x] f by blast
  have 3: "\<exists>y h'. deleteMin lessThanFunc h = Some (Inr (y, h')) \<and>
        heap_inv lessThanFunc h' \<and> heap_invariants lessThanFunc h'"
    using deleteMin_inv[OF assms] f by blast
  have 4: "n \<in> reach (mem h) (h_root h) \<longrightarrow>
        (\<exists>h'. delete lessThanFunc n h = Some (Inr h') \<and>
           heap_inv lessThanFunc h' \<and> heap_invariants lessThanFunc h')"
    using delete_inv[OF assms, of n] f by blast
  have 5: "n \<in> reach (mem h) (h_root h) \<and> \<not> lessThanFunc (item (mem h n)) (Some v) \<longrightarrow>
        (\<exists>h'. decreaseKey lessThanFunc n (h\<lparr>mem := set_item n (Some v) (mem h)\<rparr>) = Inr h' \<and>
           heap_inv lessThanFunc h' \<and> heap_invariants lessThanFunc h')"
    using decreaseKey_inv[OF assms, of n v] f by blast
  have 6: "heap_inv lessThanFunc (clear h) \<and> heap_invariants lessThanFunc (clear h)"
    using clear_inv[OF assms(2)] f by blast
  have 7: "0 < stack \<and> h_size h \<le> int stack \<longrightarrow>
        (\<exists>ys h'. iterator lessThanFunc stack h = Some (Inr (ys, h')) \<and>
           heap_inv lessThanFunc h' \<and> heap_invariants lessThanFunc h')"
    using iterator_inv[OF assms, of stack] f by blast
  show ?thesis using 1 2 3 4 5 6 7 by blast
qed

theorem public_operations_keep_invariants_witness:
  "heap_invariants lessThanDefault heap_ex \<and>
   heap_invariants lessThanDefault (snd (add lessThanDefault 4 heap_ex)) \<and>
   (\<exists>y h'. deleteMin lessThanDefault heap_ex = Some (Inr (y, h')) \<and>
      heap_invariants lessThanDefault h') \<and>
   (\<exists>h'. delete lessThanDefault 2 heap_ex = Some (Inr h') \<and> heap_invariants lessThanDefault h') \<and>
   (\<exists>h'. decreaseKey lessThanDefault 2 (heap_ex\<lparr>mem := set_item 2 (Some 0) (mem heap_ex)\<rparr>) = Inr h' \<and>
      heap_invariants lessThanDefault h') \<and>
   heap_invariants lessThanDefault (clear heap_ex) \<and>
   (\<exists>ys h'. iterator lessThanDefault 4 heap_ex = Some (Inr (ys, h')) \<and>
      heap_invariants lessThanDefault h')"
proof -
  have n: "2 \<in> reach (mem heap_ex) (h_root heap_ex)" by (simp add: heap_ex_reach)
  have v: "\<not> lessThanDefault (item (mem heap_ex 2)) (Some 0)"
    by (simp add: heap_ex_def mem_ex_def lessThanDefault_def)
  have k: "0 < (4::nat) \<and> h_size heap_ex \<le> int 4" by (simp add: heap_ex_def)
  from public_operations_keep_invariants[OF swo_lessThanDefault heap_ex_inv, of 4 2 0 4] n v k
  show ?thesis by blast
qed

text \<open>
  C3. \<open>merge(a, b)\<close> returns \<open>b\<close> when \<open>a\<close> is absent, \<open>a\<close> when \<open>b\<close> is absent, and the
  reference unchanged when both are the same node. Otherwise \<open>b\<close> becomes the parent and
  \<open>a\<close> the new first child exactly when \<open>b\<close>'s item compares strictly less than \<open>a\<close>'s; in
  every other case, ties included, \<open>a\<close> is the parent and \<open>b\<close> the new first child. The new
  child's \<open>next\<close> is the parent's former first child, whose \<open>prev\<close> becomes the new child
  (the former first child being a third node, as it is between independent roots); the
  new child's \<open>prev\<close> is the parent; the parent's \<open>next\<close> and \<open>prev\<close> are cleared. No item
  changes, the new child keeps its own children, and no other node is written.
\<close>

theorem merge_contract:
  "merge lessThanFunc None b s = (b, s) \<and>
   merge lessThanFunc a None s = (a, s) \<and>
   merge lessThanFunc (Some n) (Some n) s = (Some n, s) \<and>
   (n \<noteq> m \<longrightarrow>
     (\<exists>s'. merge lessThanFunc (Some n) (Some m) s =
             (Some (if lessThanFunc (item (s m)) (item (s n)) then m else n), s') \<and>
        (let parent = (if lessThanFunc (item (s m)) (item (s n)) then m else n);
             chld = (if lessThanFunc (item (s m)) (item (s n)) then n else m)
         in child (s' parent) = Some chld \<and>
            nxt (s' chld) = child (s parent) \<and>
            (\<forall>pc. child (s parent) = Some pc \<and> pc \<noteq> n \<and> pc \<noteq> m \<longrightarrow> prev (s' pc) = Some chld) \<and>
            prev (s' chld) = Some parent \<and>
            nxt (s' parent) = None \<and>
            prev (s' parent) = None \<and>
            child (s' chld) = child (s chld) \<and>
            (\<forall>k. item (s' k) = item (s k)) \<and>
            (\<forall>k. k \<noteq> n \<and> k \<noteq> m \<and> child (s parent) \<noteq> Some k \<longrightarrow> s' k = s k))))"
  by (cases a)
     (auto simp: merge_def Let_def set_next_def set_prev_def set_child_def split: option.splits)

theorem merge_contract_witness:
  "\<exists>s'. merge lessThanDefault (Some 0) (Some 1) mem_two_trees = (Some 1, s') \<and>
     child (s' 1) = Some 0 \<and> nxt (s' 0) = Some 2 \<and> prev (s' 2) = Some 0 \<and>
     prev (s' 0) = Some 1 \<and> nxt (s' 1) = None \<and> prev (s' 1) = None"
  using merge_contract[of lessThanDefault None mem_two_trees None 0 1]
  by (auto simp: lessThanDefault_def mem_two_trees_def Let_def)

text \<open>
  C4. The iterative \<open>collapse\<close> computes the tree of the recursive two-pass method. On
  an absent list it returns absent. On a sibling list that the memory holds (\<open>chain\<close>, with
  pairwise different nodes) it terminates without error and returns the root of
  \<open>collapse_spec\<close>: \<open>pass1_spec\<close> merges each adjacent pair from left to right and passes an
  odd last tree through, \<open>pass2_spec\<close> reduces these results from the last back to the first
  by \<open>Merge(accumulator, next)\<close>. The memory afterwards holds exactly that tree at the
  returned root, whose \<open>prev\<close> and \<open>next\<close> are absent.
\<close>

theorem collapse_refines_two_pass:
  "collapse lessThanFunc None s = Some (Inr (None, s)) \<and>
   (chain s c t \<and> dist t \<longrightarrow>
     (\<exists>s'. collapse lessThanFunc c s =
              Some (Inr (map_option fst (collapse_spec (cmp_of lessThanFunc) (sibs t)), s')) \<and>
        (case collapse_spec (cmp_of lessThanFunc) (sibs t) of
           None \<Rightarrow> c = None \<and> s' = s
         | Some r \<Rightarrow> tree_at s' r \<and> isolated s' (fst r))))"
proof (intro conjI impI)
  show "collapse lessThanFunc None s = Some (Inr (None, s))"
    by (simp add: collapse_def)
next
  assume a: "chain s c t \<and> dist t"
  then have ch: "chain s c t" and d: "dist t" by auto
  from collapse_ok[OF ch d, of lessThanFunc] obtain s' where
    r: "collapse lessThanFunc c s
          = Some (Inr (map_option fst (collapse_tree (cmp_of lessThanFunc) t), s'))"
       "case collapse_tree (cmp_of lessThanFunc) t of
          None \<Rightarrow> t = Tip \<and> s' = s
        | Some r \<Rightarrow> tree_at s' r \<and> isolated s' (fst r) \<and> rdist r \<and> raddrs r = addrs t"
    by auto
  have "case collapse_tree (cmp_of lessThanFunc) t of
          None \<Rightarrow> c = None \<and> s' = s
        | Some r \<Rightarrow> tree_at s' r \<and> isolated s' (fst r)"
    using r(2) ch by (cases "collapse_tree (cmp_of lessThanFunc) t") (auto simp: chain_def)
  then show "\<exists>s'. collapse lessThanFunc c s =
              Some (Inr (map_option fst (collapse_spec (cmp_of lessThanFunc) (sibs t)), s')) \<and>
        (case collapse_spec (cmp_of lessThanFunc) (sibs t) of
           None \<Rightarrow> c = None \<and> s' = s
         | Some r \<Rightarrow> tree_at s' r \<and> isolated s' (fst r))"
    using r(1) unfolding collapse_tree_def by blast
qed

theorem collapse_refines_two_pass_witness:
  "\<exists>s'. collapse lessThanDefault (Some 1) mem_siblings = Some (Inr (Some 2, s')) \<and>
     tree_at s' (2, 4, PNode Tip 3 6 (PNode Tip 1 7 Tip)) \<and> isolated s' 2"
  using collapse_refines_two_pass[of lessThanDefault mem_siblings "Some 1"
      "PNode Tip 1 7 (PNode Tip 2 4 (PNode Tip 3 6 Tip))"]
  by (auto simp: chain_def mem_siblings_def collapse_spec_def link.simps cmp_of_def
        lessThanDefault_def)

text \<open>
  C5, as stated, fails: on a node other than the root whose \<open>prev\<close> link is absent,
  \<open>delete\<close> without a pool returns silently, while \<open>decreaseKey\<close> dereferences the absent
  link and throws.
\<close>

theorem decreaseKey_absent_prev_counterexample:
  "delete lessThanDefault 4 heap_ex = Some (Inr heap_ex) \<and>
   decreaseKey lessThanDefault 4 heap_ex = Inl TypeError"
  by (simp add: delete_unlink_eq decreaseKey_unlink_eq heap_ex_def mem_ex_def blank_def)

text \<open>
  C5, amended. \<open>decreaseKey(node)\<close> is a no-op when \<open>node\<close> is the root. On any other node
  whose \<open>prev\<close> link is present it unlinks the node from its sibling position by the very
  assignments of \<open>delete\<close> (\<open>unlink\<close>), which leave the node's \<open>child\<close> link as it was, and
  then sets \<open>root = Merge(root, node)\<close>; on a node of a well-formed heap it succeeds, and
  every descendant of the node is a descendant of it afterwards. On a node other than the
  root whose \<open>prev\<close> link is absent it throws a \<open>TypeError\<close>; \<open>delete\<close>'s handling of such a
  node is not part of \<open>decreaseKey\<close>.
\<close>

theorem decreaseKey_contract:
  "(h_root h = Some n \<longrightarrow> decreaseKey lessThanFunc n h = Inr h) \<and>
   (h_root h \<noteq> Some n \<and> prev (mem h n) = None \<longrightarrow>
      decreaseKey lessThanFunc n h = Inl TypeError) \<and>
   (h_root h \<noteq> Some n \<and> prev (mem h n) = Some p \<longrightarrow>
      decreaseKey lessThanFunc n h =
        (case merge lessThanFunc (h_root h) (Some n) (unlink n p (mem h)) of
           (r, s3) \<Rightarrow> Inr (h\<lparr>mem := s3, h_root := r\<rparr>)) \<and>
      delete lessThanFunc n h =
        (case collapse lessThanFunc (child (unlink n p (mem h) n)) (unlink n p (mem h)) of
           None \<Rightarrow> None
         | Some (Inl e) \<Rightarrow> Some (Inl e)
         | Some (Inr (c, s3)) \<Rightarrow>
            (case merge lessThanFunc (h_root h) c s3 of
               (r, s4) \<Rightarrow> Some (Inr (delete_finish n (h\<lparr>mem := s4, h_root := r\<rparr>))))) \<and>
      (p \<noteq> n \<longrightarrow> child (unlink n p (mem h) n) = child (mem h n))) \<and>
   (heap_wf h \<and> n \<in> reach (mem h) (h_root h) \<longrightarrow>
      (\<exists>h'. decreaseKey lessThanFunc n h = Inr h' \<and>
         reach (mem h) (child (mem h n)) \<subseteq> reach (mem h') (child (mem h' n))))"
proof -
  have "(h_root h = Some n \<longrightarrow> decreaseKey lessThanFunc n h = Inr h) \<and>
   (h_root h \<noteq> Some n \<and> prev (mem h n) = None \<longrightarrow>
      decreaseKey lessThanFunc n h = Inl TypeError) \<and>
   (h_root h \<noteq> Some n \<and> prev (mem h n) = Some p \<longrightarrow>
      decreaseKey lessThanFunc n h =
        (case merge lessThanFunc (h_root h) (Some n) (unlink n p (mem h)) of
           (r, s3) \<Rightarrow> Inr (h\<lparr>mem := s3, h_root := r\<rparr>)) \<and>
      delete lessThanFunc n h =
        (case collapse lessThanFunc (child (unlink n p (mem h) n)) (unlink n p (mem h)) of
           None \<Rightarrow> None
         | Some (Inl e) \<Rightarrow> Some (Inl e)
         | Some (Inr (c, s3)) \<Rightarrow>
            (case merge lessThanFunc (h_root h) c s3 of
               (r, s4) \<Rightarrow> Some (Inr (delete_finish n (h\<lparr>mem := s4, h_root := r\<rparr>))))) \<and>
      (p \<noteq> n \<longrightarrow> child (unlink n p (mem h) n) = child (mem h n)))"
    by (auto simp: decreaseKey_unlink_eq delete_unlink_eq unlink_def Let_def set_child_def
          set_next_def set_prev_def split: option.splits)
  then show ?thesis using decreaseKey_keeps_children[of h n lessThanFunc] by blast
qed

theorem decreaseKey_contract_witness:
  "decreaseKey lessThanDefault 3 heap_ex = Inr heap_ex \<and>
   decreaseKey lessThanDefault 4 heap_ex = Inl TypeError \<and>
   decreaseKey lessThanDefault 0 heap_ex =
     (case merge lessThanDefault (Some 3) (Some 0) (unlink 0 2 mem_ex) of
        (r, s3) \<Rightarrow> Inr (heap_ex\<lparr>mem := s3, h_root := r\<rparr>)) \<and>
   child (unlink 0 2 mem_ex 0) = None"
  using decreaseKey_contract[of heap_ex 3 lessThanDefault 2]
    decreaseKey_contract[of heap_ex 4 lessThanDefault 2]
    decreaseKey_contract[of heap_ex 0 lessThanDefault 2]
  by (simp add: heap_ex_def mem_ex_def blank_def)

text \<open>
  C6. \<open>delete\<close> on a node other than the root whose \<open>prev\<close> link is absent throws when a pool
  is configured and otherwise returns with the heap unchanged, root and size included.
  A node that \<open>delete\<close> has just removed from a well-formed heap is such a node: the same
  call again throws with a pool and is a no-op without one. So is, at any later time,
  every allocated node outside the heap, as long as the nodes outside the heap are the
  cleared ones (which \<open>add\<close>, \<open>delete\<close>, \<open>deleteMin\<close>, \<open>decreaseKey\<close> and an iteration
  that runs to its end keep).
\<close>

theorem delete_twice:
  "(h_root g \<noteq> Some m \<and> prev (mem g m) = None \<longrightarrow>
      delete lessThanFunc m g =
        (if h_objectPool g \<noteq> None then Some (Inl AlreadyDeleted) else Some (Inr g))) \<and>
   (heap_wf h \<and> n \<in> reach (mem h) (h_root h) \<longrightarrow>
      (\<exists>h'. delete lessThanFunc n h = Some (Inr h') \<and>
         (h_objectPool h' \<noteq> None) = (h_objectPool h \<noteq> None) \<and>
         delete lessThanFunc n h' =
           (if h_objectPool h \<noteq> None then Some (Inl AlreadyDeleted) else Some (Inr h')))) \<and>
   (dead_cleared f \<and> k < fresh f \<and> k \<notin> reach (mem f) (h_root f) \<longrightarrow>
      delete lessThanFunc k f =
        (if h_objectPool f \<noteq> None then Some (Inl AlreadyDeleted) else Some (Inr f)))"
proof (intro conjI impI)
  assume "h_root g \<noteq> Some m \<and> prev (mem g m) = None"
  then show "delete lessThanFunc m g =
        (if h_objectPool g \<noteq> None then Some (Inl AlreadyDeleted) else Some (Inr g))"
    by (auto simp: delete_unlink_eq)
next
  assume a: "heap_wf h \<and> n \<in> reach (mem h) (h_root h)"
  from delete_wf[of h n lessThanFunc] a obtain h' where
    d: "delete lessThanFunc n h = Some (Inr h')" "cleared (mem h' n)"
       "n \<notin> reach (mem h') (h_root h')"
       "h_objectPool h' = map_option (pool_release n) (h_objectPool h)"
    by blast
  have nr: "h_root h' \<noteq> Some n" using d(3) root_in_reach[of h' n] by auto
  have pv: "prev (mem h' n) = None" using d(2) by (simp add: cleared_def)
  have pp: "(h_objectPool h' \<noteq> None) = (h_objectPool h \<noteq> None)" using d(4) by simp
  have "delete lessThanFunc n h' =
           (if h_objectPool h \<noteq> None then Some (Inl AlreadyDeleted) else Some (Inr h'))"
    using nr pv pp by (auto simp: delete_unlink_eq)
  then show "\<exists>h'. delete lessThanFunc n h = Some (Inr h') \<and>
         (h_objectPool h' \<noteq> None) = (h_objectPool h \<noteq> None) \<and>
         delete lessThanFunc n h' =
           (if h_objectPool h \<noteq> None then Some (Inl AlreadyDeleted) else Some (Inr h'))"
    using d(1) pp by blast
next
  assume a: "dead_cleared f \<and> k < fresh f \<and> k \<notin> reach (mem f) (h_root f)"
  then have "cleared (mem f k)" by (auto simp: dead_cleared_def)
  then have pv: "prev (mem f k) = None" by (simp add: cleared_def)
  have nr: "h_root f \<noteq> Some k" using a root_in_reach[of f k] by auto
  show "delete lessThanFunc k f =
        (if h_objectPool f \<noteq> None then Some (Inl AlreadyDeleted) else Some (Inr f))"
    using nr pv by (auto simp: delete_unlink_eq)
qed

theorem delete_twice_witness:
  "delete lessThanDefault 4 heap_ex = Some (Inr heap_ex) \<and>
   delete lessThanDefault 4 heap_pool_ex = Some (Inl AlreadyDeleted) \<and>
   (\<exists>h'. delete lessThanDefault 2 heap_ex = Some (Inr h') \<and>
      delete lessThanDefault 2 h' = Some (Inr h')) \<and>
   (\<exists>h'. delete lessThanDefault 2 heap_pool_ex = Some (Inr h') \<and>
      delete lessThanDefault 2 h' = Some (Inl AlreadyDeleted))"
proof -
  have a: "h_root heap_ex \<noteq> Some 4 \<and> prev (mem heap_ex 4) = None" "h_objectPool heap_ex = None"
    by (simp_all add: heap_ex_def mem_ex_def blank_def)
  have b: "h_root heap_pool_ex \<noteq> Some 4 \<and> prev (mem heap_pool_ex 4) = None"
    "h_objectPool heap_pool_ex \<noteq> None"
    by (simp_all add: heap_pool_ex_def heap_ex_def mem_ex_def blank_def)
  have c: "heap_wf heap_ex \<and> 2 \<in> reach (mem heap_ex) (h_root heap_ex)"
    using heap_ex_shape by (auto simp: heap_wf_def heap_ex_reach)
  have d: "heap_wf heap_pool_ex \<and> 2 \<in> reach (mem heap_pool_ex) (h_root heap_pool_ex)"
    using heap_pool_ex_shape by (auto simp: heap_wf_def heap_pool_ex_reach)
  show ?thesis
    using delete_twice[of heap_ex 4 lessThanDefault heap_ex 2 heap_ex 4]
      delete_twice[of heap_pool_ex 4 lessThanDefault heap_pool_ex 2 heap_ex 4] a b c d
    by auto
qed

text \<open>
  C7, as stated, fails: a node that comes from the pool gets its item set and nothing
  else; \<open>add\<close> does not clear its links.
\<close>

theorem add_pool_links_counterexample:
  "fst (add lessThanDefault 7 heap_dirty_pool) = 1 \<and>
   child (mem (snd (add lessThanDefault 7 heap_dirty_pool)) 1) = Some 0"
  by (simp add: add_def heap_dirty_pool_def pool_get_def merge_def set_item_def Let_def)

text \<open>
  C7, amended. \<open>add(item)\<close> takes a node from the pool when a pool is configured and its
  \<open>get()\<close> supplies one, and otherwise allocates a fresh node with the item and absent
  links. On a node from the pool it sets the item and leaves the links as the pool
  supplied them; in a well-formed heap the nodes of the pool have absent links already
  (\<open>delete\<close> clears a node before it releases it). It then increments \<open>size\<close>, sets
  \<open>root = Merge(root, node)\<close> and returns the node; it never fails.
\<close>

theorem add_contract:
  "(let got = (case h_objectPool h of None \<Rightarrow> None | Some p \<Rightarrow> fst (pool_get p));
        node = (case got of None \<Rightarrow> fresh h | Some n \<Rightarrow> n);
        s1 = (case got of
                None \<Rightarrow> (mem h)(fresh h := \<lparr>item = Some x, child = None, nxt = None, prev = None\<rparr>)
              | Some n \<Rightarrow> (mem h)(n := (mem h n)\<lparr>item := Some x\<rparr>));
        m = merge lessThanFunc (h_root h) (Some node) s1
    in fst (add lessThanFunc x h) = node \<and>
       h_size (snd (add lessThanFunc x h)) = h_size h + 1 \<and>
       h_root (snd (add lessThanFunc x h)) = fst m \<and>
       mem (snd (add lessThanFunc x h)) = snd m \<and>
       item (s1 node) = Some x \<and>
       (got = None \<or> heap_wf h \<longrightarrow>
          child (s1 node) = None \<and> nxt (s1 node) = None \<and> prev (s1 node) = None))"
proof (cases "h_objectPool h")
  case None
  then show ?thesis by (simp add: add_def Let_def split: prod.splits)
next
  case (Some p)
  show ?thesis
  proof (cases "fst (pool_get p)")
    case None
    then show ?thesis using Some
      by (auto simp: add_def Let_def split: prod.splits)
  next
    case (Some n)
    have "heap_wf h \<longrightarrow>
        child (mem h n) = None \<and> nxt (mem h n) = None \<and> prev (mem h n) = None"
      using pool_node_clean[OF _ \<open>h_objectPool h = Some p\<close> Some] by blast
    then show ?thesis using Some \<open>h_objectPool h = Some p\<close>
      by (auto simp: add_def Let_def set_item_def split: prod.splits)
  qed
qed

theorem add_contract_witness:
  "fst (add lessThanDefault 7 heap_pool_ex) = 4 \<and>
   h_size (snd (add lessThanDefault 7 heap_pool_ex)) = 5 \<and>
   child (((mem heap_pool_ex)(4 := (mem heap_pool_ex 4)\<lparr>item := Some 7\<rparr>)) 4) = None \<and>
   fst (add lessThanDefault 7 heap_ex) = 5"
proof -
  have w: "heap_wf heap_pool_ex" using heap_pool_ex_shape by (auto simp: heap_wf_def)
  show ?thesis
    using add_contract[of heap_pool_ex 7 lessThanDefault] add_contract[of heap_ex 7 lessThanDefault] w
    by (simp add: heap_pool_ex_def heap_ex_def pool_get_def Let_def)
qed

text \<open>
  C8. On a well-formed heap, \<open>add(x)\<close> followed at once by \<open>delete\<close> on the returned handle
  succeeds and restores \<open>size\<close>, the value of \<open>getMin()\<close> and the root node.
\<close>

theorem add_then_delete_restores:
  assumes "heap_wf h"
  shows "\<exists>n h1 h2. add lessThanFunc x h = (n, h1) \<and> delete lessThanFunc n h1 = Some (Inr h2) \<and>
           h_size h2 = h_size h \<and> getMin h2 = getMin h \<and> h_root h2 = h_root h"
proof -
  let ?cmp = "cmp_of lessThanFunc"
  from assms obtain ro where ro: "heap_shape h ro" by (auto simp: heap_wf_def)
  from add_shape[OF ro, of lessThanFunc x] obtain n h1 where
    a: "add lessThanFunc x h = (n, h1)" "n \<notin> oaddrs ro"
       "heap_shape h1 (Some (add_abs ?cmp n x ro))" by auto
  have "n \<in> oaddrs (Some (add_abs ?cmp n x ro))" by simp
  from delete_shape[OF a(3) this, of lessThanFunc] obtain h2 where
    d: "delete lessThanFunc n h1 = Some (Inr h2)"
       "heap_shape h2 (delete_abs ?cmp n (Some (add_abs ?cmp n x ro)))" by auto
  have "heap_shape h2 ro" using d(2) roundtrip_abs[OF a(2), of ?cmp x] by simp
  then show ?thesis using a(1) d(1) shape_getMin[OF ro] shape_getMin[of h2 ro] by auto
qed

theorem add_then_delete_restores_witness:
  "\<exists>n h1 h2. add lessThanDefault 0 heap_ex = (n, h1) \<and>
     delete lessThanDefault n h1 = Some (Inr h2) \<and>
     h_size h2 = 4 \<and> getMin h2 = Some 1 \<and> h_root h2 = Some 3"
proof -
  have w: "heap_wf heap_ex" using heap_ex_shape by (auto simp: heap_wf_def)
  from add_then_delete_restores[OF w, of lessThanDefault 0] show ?thesis
    by (simp add: heap_ex_def getMin_def mem_ex_def)
qed

text \<open>
  C9, as stated, fails: \<open>clear()\<close> drops the nodes of the heap without touching them, so
  a node that is no longer in the heap keeps its item and its links.
\<close>

theorem clear_keeps_nodes_counterexample:
  "3 \<in> reach (mem heap_ex) (h_root heap_ex) \<and>
   3 \<notin> reach (mem (clear heap_ex)) (h_root (clear heap_ex)) \<and>
   item (mem (clear heap_ex) 3) = Some 1 \<and> child (mem (clear heap_ex) 3) = Some 1"
  by (simp add: heap_ex_reach) (simp add: clear_def heap_ex_def mem_ex_def)

text \<open>
  C9, amended. A node removed by \<open>delete\<close> or \<open>deleteMin\<close> leaves the heap with its
  \<open>child\<close>, \<open>next\<close> and \<open>prev\<close> links and its item cleared. In a well-formed heap in which
  every allocated node outside the heap is cleared, that stays so under \<open>add\<close>, \<open>delete\<close>,
  \<open>deleteMin\<close>, \<open>decreaseKey\<close> and the iteration (on a call stack with room for one nested
  generator for each node). \<open>clear()\<close> is not among them: it clears no node.
\<close>

theorem removed_nodes_are_cleared:
  assumes "heap_wf h" "dead_cleared h"
  shows "(n \<in> reach (mem h) (h_root h) \<longrightarrow>
            (\<exists>h'. delete lessThanFunc n h = Some (Inr h') \<and>
               n \<notin> reach (mem h') (h_root h') \<and> cleared (mem h' n) \<and> dead_cleared h')) \<and>
         (\<exists>y h'. deleteMin lessThanFunc h = Some (Inr (y, h')) \<and>
            (\<forall>r. h_root h = Some r \<longrightarrow>
               r \<notin> reach (mem h') (h_root h') \<and> cleared (mem h' r)) \<and>
            dead_cleared h') \<and>
         dead_cleared (snd (add lessThanFunc x h)) \<and>
         (n \<in> reach (mem h) (h_root h) \<longrightarrow>
            (\<exists>h'. decreaseKey lessThanFunc n h = Inr h' \<and> dead_cleared h')) \<and>
         (0 < stack \<and> h_size h \<le> int stack \<longrightarrow>
            (\<exists>ys h'. iterator lessThanFunc stack h = Some (Inr (ys, h')) \<and> dead_cleared h'))"
proof -
  have 1: "n \<in> reach (mem h) (h_root h) \<longrightarrow>
            (\<exists>h'. delete lessThanFunc n h = Some (Inr h') \<and>
               n \<notin> reach (mem h') (h_root h') \<and> cleared (mem h' n) \<and> dead_cleared h')"
  proof
    assume n: "n \<in> reach (mem h) (h_root h)"
    from delete_wf[OF assms(1) n, of lessThanFunc] obtain h' where
      d: "delete lessThanFunc n h = Some (Inr h')" "cleared (mem h' n)"
         "n \<notin> reach (mem h') (h_root h')"
         "reach (mem h') (h_root h') = reach (mem h) (h_root h) - {n}"
         "\<forall>m. m \<notin> reach (mem h) (h_root h) \<longrightarrow> mem h' m = mem h m" "fresh h' = fresh h"
      by blast
    have "dead_cleared h'"
      unfolding dead_cleared_def d(4,6) using assms(2) d(2,5)
      by (auto simp: dead_cleared_def)
    then show "\<exists>h'. delete lessThanFunc n h = Some (Inr h') \<and>
               n \<notin> reach (mem h') (h_root h') \<and> cleared (mem h' n) \<and> dead_cleared h'"
      using d(1,2,3) by blast
  qed
  have 2: "\<exists>y h'. deleteMin lessThanFunc h = Some (Inr (y, h')) \<and>
            (\<forall>r. h_root h = Some r \<longrightarrow>
               r \<notin> reach (mem h') (h_root h') \<and> cleared (mem h' r)) \<and>
            dead_cleared h'"
  proof -
    from deleteMin_wf[OF assms(1), of lessThanFunc] obtain y h' where
      d: "deleteMin lessThanFunc h = Some (Inr (y, h'))"
         "\<forall>r. h_root h = Some r \<longrightarrow> cleared (mem h' r) \<and>
              reach (mem h') (h_root h') = reach (mem h) (h_root h) - {r}"
         "\<forall>m. m \<notin> reach (mem h) (h_root h) \<longrightarrow> mem h' m = mem h m" "fresh h' = fresh h"
      by blast
    have "dead_cleared h'"
    proof (cases "h_root h")
      case None
      then have "h' = h" using d(1) by (simp add: deleteMin_def)
      then show ?thesis using assms(2) by simp
    next
      case (Some r)
      then have "cleared (mem h' r)"
        "reach (mem h') (h_root h') = reach (mem h) (h_root h) - {r}" using d(2) by auto
      then show ?thesis
        unfolding dead_cleared_def d(4) using assms(2) d(3)
        by (auto simp: dead_cleared_def)
    qed
    then show ?thesis using d(1,2) by blast
  qed
  have 3: "dead_cleared (snd (add lessThanFunc x h))"
    using assms by (rule add_dead_cleared)
  have 4: "n \<in> reach (mem h) (h_root h) \<longrightarrow>
            (\<exists>h'. decreaseKey lessThanFunc n h = Inr h' \<and> dead_cleared h')"
  proof
    assume n: "n \<in> reach (mem h) (h_root h)"
    from decreaseKey_wf[OF assms(1) n, of lessThanFunc] obtain h' where
      d: "decreaseKey lessThanFunc n h = Inr h'"
         "reach (mem h') (h_root h') = reach (mem h) (h_root h)"
         "\<forall>m. m \<notin> reach (mem h) (h_root h) \<longrightarrow> mem h' m = mem h m" "fresh h' = fresh h"
      by blast
    have "dead_cleared h'"
      unfolding dead_cleared_def d(2,4) using assms(2) d(3) by (auto simp: dead_cleared_def)
    then show "\<exists>h'. decreaseKey lessThanFunc n h = Inr h' \<and> dead_cleared h'"
      using d(1) by blast
  qed
  have 5: "0 < stack \<and> h_size h \<le> int stack \<longrightarrow>
            (\<exists>ys h'. iterator lessThanFunc stack h = Some (Inr (ys, h')) \<and> dead_cleared h')"
  proof
    assume st: "0 < stack \<and> h_size h \<le> int stack"
    then have sk: "h_size h \<le> int stack" "0 < stack" by auto
    from iterator_wf[OF assms(1) sk, of lessThanFunc] obtain ys h' where
      d: "iterator lessThanFunc stack h = Some (Inr (ys, h'))" "h' = h\<lparr>mem := mem h'\<rparr>"
         "reach (mem h') (h_root h') = reach (mem h) (h_root h)"
         "\<forall>m. m \<notin> reach (mem h) (h_root h) \<longrightarrow> mem h' m = mem h m"
      by blast
    have "fresh h' = fresh h" using d(2)
      by (metis PairingHeap.select_convs(2) PairingHeap.surjective PairingHeap.update_convs(1))
    then have "dead_cleared h'"
      unfolding dead_cleared_def d(3) using assms(2) d(4) by (auto simp: dead_cleared_def)
    then show "\<exists>ys h'. iterator lessThanFunc stack h = Some (Inr (ys, h')) \<and> dead_cleared h'"
      using d(1) by blast
  qed
  show ?thesis using 1 2 3 4 5 by blast
qed

theorem removed_nodes_are_cleared_witness:
  "(\<exists>h'. delete lessThanDefault 2 heap_ex = Some (Inr h') \<and>
      2 \<notin> reach (mem h') (h_root h') \<and> cleared (mem h' 2) \<and> dead_cleared h') \<and>
   (\<exists>y h'. deleteMin lessThanDefault heap_ex = Some (Inr (y, h')) \<and>
      3 \<notin> reach (mem h') (h_root h') \<and> cleared (mem h' 3) \<and> dead_cleared h') \<and>
   dead_cleared (snd (add lessThanDefault 4 heap_ex)) \<and>
   (\<exists>ys h'. iterator lessThanDefault 4 heap_ex = Some (Inr (ys, h')) \<and> dead_cleared h')"
proof -
  have n: "2 \<in> reach (mem heap_ex) (h_root heap_ex)" by (simp add: heap_ex_reach)
  have r: "h_root heap_ex = Some 3" by (simp add: heap_ex_def)
  have k: "0 < (4::nat) \<and> h_size heap_ex \<le> int 4" by (simp add: heap_ex_def)
  from removed_nodes_are_cleared[OF heap_ex_wf heap_ex_dead, of 2 lessThanDefault 4 4] n r k
  show ?thesis by blast
qed

text \<open>
  C10. In a well-formed heap the root, if there is one, has neither a \<open>prev\<close> nor a
  \<open>next\<close> link, and every public operation leaves a well-formed heap of which that holds
  again: \<open>add\<close>, \<open>deleteMin\<close>, \<open>delete\<close> and \<open>decreaseKey\<close> on a node of the heap, a new value
  for the item of a node, \<open>clear\<close>, and the iteration on a call stack with room for one
  nested generator for each node.
\<close>

theorem root_stays_detached:
  assumes "heap_wf h"
  shows "root_detached h \<and>
     (heap_wf (snd (add lessThanFunc x h)) \<and> root_detached (snd (add lessThanFunc x h))) \<and>
     (\<exists>y h'. deleteMin lessThanFunc h = Some (Inr (y, h')) \<and> heap_wf h' \<and> root_detached h') \<and>
     (n \<in> reach (mem h) (h_root h) \<longrightarrow>
        (\<exists>h'. delete lessThanFunc n h = Some (Inr h') \<and> heap_wf h' \<and> root_detached h')) \<and>
     (n \<in> reach (mem h) (h_root h) \<longrightarrow>
        (\<exists>h'. decreaseKey lessThanFunc n h = Inr h' \<and> heap_wf h' \<and> root_detached h')) \<and>
     (heap_wf (h\<lparr>mem := set_item n (Some v) (mem h)\<rparr>) \<and>
      root_detached (h\<lparr>mem := set_item n (Some v) (mem h)\<rparr>)) \<and>
     (heap_wf (clear h) \<and> root_detached (clear h)) \<and>
     (0 < stack \<and> h_size h \<le> int stack \<longrightarrow>
        (\<exists>ys h'. iterator lessThanFunc stack h = Some (Inr (ys, h')) \<and>
           heap_wf h' \<and> root_detached h'))"
proof -
  note f = heap_wf_detached
  have 1: "root_detached h" using assms by (rule f)
  have 2: "heap_wf (snd (add lessThanFunc x h)) \<and> root_detached (snd (add lessThanFunc x h))"
    using add_wf[OF assms, of lessThanFunc x] f by blast
  have 3: "\<exists>y h'. deleteMin lessThanFunc h = Some (Inr (y, h')) \<and> heap_wf h' \<and> root_detached h'"
    using deleteMin_wf[OF assms, of lessThanFunc] f by blast
  have 4: "n \<in> reach (mem h) (h_root h) \<longrightarrow>
        (\<exists>h'. delete lessThanFunc n h = Some (Inr h') \<and> heap_wf h' \<and> root_detached h')"
    using delete_wf[OF assms, of n lessThanFunc] f by blast
  have 5: "n \<in> reach (mem h) (h_root h) \<longrightarrow>
        (\<exists>h'. decreaseKey lessThanFunc n h = Inr h' \<and> heap_wf h' \<and> root_detached h')"
    using decreaseKey_wf[OF assms, of n lessThanFunc] f by blast
  have 6: "heap_wf (h\<lparr>mem := set_item n (Some v) (mem h)\<rparr>) \<and>
      root_detached (h\<lparr>mem := set_item n (Some v) (mem h)\<rparr>)"
    using set_item_wf[OF assms, of n v] f by blast
  have 7: "heap_wf (clear h) \<and> root_detached (clear h)"
    using clear_wf[OF assms] f by blast
  have 8: "0 < stack \<and> h_size h \<le> int stack \<longrightarrow>
        (\<exists>ys h'. iterator lessThanFunc stack h = Some (Inr (ys, h')) \<and>
           heap_wf h' \<and> root_detached h')"
    using iterator_wf[OF assms, of stack lessThanFunc] f by blast
  show ?thesis using 1 2 3 4 5 6 7 8 by blast
qed

theorem root_stays_detached_witness:
  "root_detached heap_ex \<and>
   root_detached (snd (add lessThanDefault 0 heap_ex)) \<and>
   (\<exists>y h'. deleteMin lessThanDefault heap_ex = Some (Inr (y, h')) \<and> root_detached h') \<and>
   (\<exists>h'. delete lessThanDefault 1 heap_ex = Some (Inr h') \<and> root_detached h') \<and>
   (\<exists>h'. decreaseKey lessThanDefault 1 heap_ex = Inr h' \<and> root_detached h') \<and>
   root_detached (clear heap_ex) \<and>
   (\<exists>ys h'. iterator lessThanDefault 4 heap_ex = Some (Inr (ys, h')) \<and> root_detached h')"
proof -
  have n: "1 \<in> reach (mem heap_ex) (h_root heap_ex)" by (simp add: heap_ex_reach)
  have k: "0 < (4::nat) \<and> h_size heap_ex \<le> int 4" by (simp add: heap_ex_def)
  from root_stays_detached[OF heap_ex_wf, of lessThanDefault 0 1 0 4] n k
  show ?thesis by blast
qed

end
